theory Spec2Isabelle
  imports Main "HOL-Library.Word"
begin

section \<open>JavaScript strings\<close>

text \<open>
  A JavaScript string is a sequence of 16-bit code units; \<open>length\<close>, \<open>indexOf\<close>,
  \<open>slice\<close>, \<open>split\<close> and \<open>trim\<close> all count and compare code units. A string
  literal of the source is written \<open>str ''...''\<close>.
\<close>

type_synonym unit16 = "16 word"
type_synonym jsstring = "unit16 list"

definition str :: "string \<Rightarrow> jsstring" where
  "str cs = map of_char cs"

definition openDelim :: jsstring where
  "openDelim = str ''{{{''"

definition closeDelim :: jsstring where
  "closeDelim = str ''}}}''"

definition readonlyMarker :: jsstring where
  "readonlyMarker = str ''[readonly]''"

definition LF :: unit16 where
  "LF = 0x0A"

definition newline :: jsstring where
  "newline = [LF]"

text \<open>\<open>occurs_at pat s p\<close>: the pattern stands in \<open>s\<close> at index \<open>p\<close>.\<close>

definition occurs_at :: "'a list \<Rightarrow> 'a list \<Rightarrow> nat \<Rightarrow> bool" where
  "occurs_at pat s p = (p + length pat \<le> length s \<and> take (length pat) (drop p s) = pat)"

text \<open>The first index at which the pattern stands, scanning from the left.\<close>

fun search :: "'a list \<Rightarrow> 'a list \<Rightarrow> nat option" where
  "search pat [] = (if pat = [] then Some 0 else None)"
| "search pat (x # xs) =
     (if take (length pat) (x # xs) = pat then Some 0 else map_option Suc (search pat xs))"

text \<open>
  \<open>String.prototype.indexOf(searchString, position)\<close> for a position that is not
  negative: the search starts at \<open>min position length\<close>; the result \<open>-1\<close> is \<open>None\<close>.
\<close>

definition indexOf :: "'a list \<Rightarrow> 'a list \<Rightarrow> nat \<Rightarrow> nat option" where
  "indexOf s pat position =
     (let start = min position (length s)
      in map_option (\<lambda>k. start + k) (search pat (drop start s)))"

text \<open>\<open>String.prototype.slice(start, end)\<close> and \<open>slice(start)\<close>, indices not negative.\<close>

definition slice :: "'a list \<Rightarrow> nat \<Rightarrow> nat \<Rightarrow> 'a list" where
  "slice s a b =
     (let from = min a (length s); to = min b (length s)
      in take (to - from) (drop from s))"

definition sliceFrom :: "'a list \<Rightarrow> nat \<Rightarrow> 'a list" where
  "sliceFrom s a = drop (min a (length s)) s"

text \<open>\<open>String.prototype.split\<close> with a separator of one code unit.\<close>

fun splitOn :: "'a list \<Rightarrow> 'a \<Rightarrow> 'a list list" where
  "splitOn [] sep = [[]]"
| "splitOn (x # xs) sep =
     (if x = sep then [] # splitOn xs sep
      else (case splitOn xs sep of [] \<Rightarrow> [[x]] | l # ls \<Rightarrow> (x # l) # ls))"

text \<open>
  \<open>Array.prototype.shift\<close>: the first element (\<open>undefined\<close>, here \<open>None\<close>, on an
  empty array) and the array without it.
\<close>

definition shift :: "'a list \<Rightarrow> 'a option \<times> 'a list" where
  "shift xs = (case xs of [] \<Rightarrow> (None, []) | x # rest \<Rightarrow> (Some x, rest))"

text \<open>\<open>v || ""\<close> on a string or \<open>undefined\<close>: both falsy values give the empty string.\<close>

definition orEmpty :: "jsstring option \<Rightarrow> jsstring" where
  "orEmpty v = (case v of None \<Rightarrow> [] | Some l \<Rightarrow> if l = [] then [] else l)"

text \<open>\<open>Array.prototype.join(separator)\<close> on an array of strings.\<close>

fun join :: "'a list list \<Rightarrow> 'a list \<Rightarrow> 'a list" where
  "join [] sep = []"
| "join [x] sep = x"
| "join (x # y # ys) sep = x @ sep @ join (y # ys) sep"

definition includesStr :: "'a list \<Rightarrow> 'a list \<Rightarrow> bool" where
  "includesStr s pat = (indexOf s pat 0 \<noteq> None)"

text \<open>
  \<open>String.prototype.replace(pattern, replacement)\<close> with a string pattern: the first
  occurrence only. The one replacement the source passes is the empty string, which
  holds no \<open>$\<close> pattern.
\<close>

definition replace :: "'a list \<Rightarrow> 'a list \<Rightarrow> 'a list \<Rightarrow> 'a list" where
  "replace s pat rep =
     (case indexOf s pat 0 of
        None \<Rightarrow> s
      | Some p \<Rightarrow> take p s @ rep @ drop (p + length pat) s)"

text \<open>The code units \<open>trim\<close> removes: ECMAScript's WhiteSpace and LineTerminator.\<close>

definition isWhiteSpace :: "unit16 \<Rightarrow> bool" where
  "isWhiteSpace u =
     (u = 0x0009 \<or> u = 0x000A \<or> u = 0x000B \<or> u = 0x000C \<or> u = 0x000D \<or> u = 0x0020
      \<or> u = 0x00A0 \<or> u = 0x1680 \<or> (0x2000 \<le> u \<and> u \<le> 0x200A) \<or> u = 0x2028
      \<or> u = 0x2029 \<or> u = 0x202F \<or> u = 0x205F \<or> u = 0x3000 \<or> u = 0xFEFF)"

definition trim :: "jsstring \<Rightarrow> jsstring" where
  "trim s = rev (dropWhile isWhiteSpace (rev (dropWhile isWhiteSpace s)))"

section \<open>Segments\<close>

text \<open>
  The objects \<open>{type: "text", content}\<close> and
  \<open>{type: "code", language, readOnly, content}\<close> of Editor.jsx.
\<close>

datatype segment =
    isText: Text (content: jsstring)
  | isCode: Code (language: jsstring) (readOnly: bool) (content: jsstring)

section \<open>The decoder of Editor.jsx\<close>

definition parseCodeBlock :: "jsstring \<Rightarrow> segment" where
  "parseCodeBlock blockText =
     (let (first, lines) = shift (splitOn blockText LF);
          firstLine = orEmpty first;
          content = join lines newline
      in if includesStr firstLine readonlyMarker
         then Code (trim (trim (replace firstLine readonlyMarker []))) True content
         else Code (trim firstLine) False content)"

text \<open>
  The \<open>while\<close> loop of \<open>parseSegments\<close>, with its variables \<open>index\<close> and
  \<open>segments\<close> as arguments; \<open>push\<close> appends. A run that never leaves the loop is the
  value \<open>None\<close>.
\<close>

partial_function (option) parseLoop :: "jsstring \<Rightarrow> nat \<Rightarrow> segment list \<Rightarrow> segment list option" where
  "parseLoop rawText index segments =
     (if index < length rawText then
        (case indexOf rawText openDelim index of
           None \<Rightarrow> Some (segments @ [Text (sliceFrom rawText index)])
         | Some start \<Rightarrow>
             (let segments1 =
                    (if start > index then segments @ [Text (slice rawText index start)]
                     else segments)
              in case indexOf rawText closeDelim (start + 3) of
                   None \<Rightarrow> Some (segments1 @ [parseCodeBlock (sliceFrom rawText (start + 3))])
                 | Some end \<Rightarrow>
                     parseLoop rawText (end + 3)
                       (segments1 @ [parseCodeBlock (slice rawText (start + 3) end)])))
      else Some segments)"

declare parseLoop.simps [code]

definition parseSegments :: "jsstring \<Rightarrow> segment list option" where
  "parseSegments rawText = parseLoop rawText 0 []"

section \<open>The encoders\<close>

text \<open>The callback \<open>buildRawText\<close> of Editor.jsx maps over the segments.\<close>

definition renderSegment :: "segment \<Rightarrow> jsstring" where
  "renderSegment seg =
     (case seg of
        Text c \<Rightarrow> c
      | Code l r c \<Rightarrow>
          (let roMarker = (if r then str '' [readonly]'' else [])
           in openDelim @ l @ roMarker @ newline @ c @ closeDelim))"

definition buildRawText :: "segment list \<Rightarrow> jsstring" where
  "buildRawText segments = join (map renderSegment segments) []"

text \<open>
  \<open>buildRawText\<close> of parseSegments.js, which knows no read-only marker:
  \<open>seg.language ? seg.language + "\n" : "\n"\<close> tests the language for the empty string.
\<close>

definition renderSegmentLegacy :: "segment \<Rightarrow> jsstring" where
  "renderSegmentLegacy seg =
     (case seg of
        Text c \<Rightarrow> c
      | Code l r c \<Rightarrow>
          openDelim @ (if l \<noteq> [] then l @ newline else newline) @ c @ closeDelim)"

definition buildRawTextLegacy :: "segment list \<Rightarrow> jsstring" where
  "buildRawTextLegacy segments = join (map renderSegmentLegacy segments) []"

section \<open>Editing one segment\<close>

text \<open>
  \<open>handleSegmentChange\<close> copies the array and assigns \<open>updated[idx].content\<close>. Past
  the end of the array \<open>updated[idx]\<close> is \<open>undefined\<close> and the assignment throws a
  TypeError, here \<open>None\<close>. The copy is shallow, so the assignment writes into the object
  that the old array holds too; the objects are the ones \<open>parseSegments\<close> pushed, each a
  fresh one, so none stands at two indices and one element changes. The model is on
  values: its argument is the array before the assignment, its result the array after it.
\<close>

fun setContent :: "segment \<Rightarrow> jsstring \<Rightarrow> segment" where
  "setContent (Text c) v = Text v"
| "setContent (Code l r c) v = Code l r v"

definition handleSegmentChange :: "segment list \<Rightarrow> nat \<Rightarrow> jsstring \<Rightarrow> segment list option" where
  "handleSegmentChange segments idx newValue =
     (if idx < length segments
      then Some (segments[idx := setContent (segments ! idx) newValue])
      else None)"

section \<open>The decoder as a function of the text that is left\<close>

text \<open>
  The loop reads \<open>rawText\<close> only from \<open>index\<close> on, so its result is a function of
  that suffix: \<open>segmentsOf\<close> is the loop on the suffix, by recursion on its length
  (\<open>parseLoop_segmentsOf\<close> below proves the two equal).
\<close>

definition textSeg :: "jsstring \<Rightarrow> segment list" where
  "textSeg t = (if t = [] then [] else [Text t])"

function segmentsOf :: "jsstring \<Rightarrow> segment list" where
  "segmentsOf s =
     (if s = [] then []
      else (case search openDelim s of
              None \<Rightarrow> [Text s]
            | Some p \<Rightarrow>
                textSeg (take p s) @
                (let b = drop (p + 3) s
                 in case search closeDelim b of
                      None \<Rightarrow> [parseCodeBlock b]
                    | Some q \<Rightarrow> parseCodeBlock (take q b) # segmentsOf (drop (q + 3) b))))"
  by pat_completeness auto
termination
  by (relation "measure length") auto

declare segmentsOf.simps [simp del]

text \<open>No two text segments stand side by side.\<close>

fun noAdjacentText :: "segment list \<Rightarrow> bool" where
  "noAdjacentText [] = True"
| "noAdjacentText [x] = True"
| "noAdjacentText (x # y # r) = ((isCode x \<or> isCode y) \<and> noAdjacentText (y # r))"

text \<open>A text segment that is not empty and holds no opening delimiter.\<close>

definition plainText :: "segment \<Rightarrow> bool" where
  "plainText seg = (isText seg \<longrightarrow> content seg \<noteq> [] \<and> search openDelim (content seg) = None)"

section \<open>Well-formed documents\<close>

text \<open>The marker as the encoder writes it after the language.\<close>

definition markerText :: "bool \<Rightarrow> jsstring" where
  "markerText r = (if r then str '' [readonly]'' else [])"

text \<open>
  A language that the decoder reads back as it is: no newline, nothing for \<open>trim\<close> to
  remove, and no read-only marker in it.
\<close>

definition wfHeader :: "jsstring \<Rightarrow> bool" where
  "wfHeader l = (LF \<notin> set l \<and> trim l = l \<and> search readonlyMarker l = None)"

text \<open>
  The documents that decoding their encoding gives back. A text segment is not empty,
  holds no opening delimiter, is not followed by a text segment and, before a code
  segment, does not end in an opening brace. The language of a code segment is as
  \<open>wfHeader\<close> says and holds no closing delimiter; its content holds no closing
  delimiter and does not end in a closing brace.
\<close>

fun wellFormed :: "segment list \<Rightarrow> bool" where
  "wellFormed [] = True"
| "wellFormed (Text t # rest) =
     (t \<noteq> [] \<and> search openDelim t = None
      \<and> (case rest of [] \<Rightarrow> True | Text u # _ \<Rightarrow> False | Code l r c # _ \<Rightarrow> last t \<noteq> 0x7B)
      \<and> wellFormed rest)"
| "wellFormed (Code l r c # rest) =
     (wfHeader l \<and> search closeDelim l = None
      \<and> search closeDelim c = None \<and> (c = [] \<or> last c \<noteq> 0x7D)
      \<and> wellFormed rest)"

text \<open>
  Well-formedness in the words of the spec (section 8), on the document's encoding: every
  opening delimiter has a closing delimiter after it, and the body of every code block has
  a first line, that is, holds a newline.
\<close>

definition specWellFormed :: "segment list \<Rightarrow> bool" where
  "specWellFormed d =
     ((\<forall>p. occurs_at openDelim (buildRawText d) p \<longrightarrow>
          (\<exists>q. p + 3 \<le> q \<and> occurs_at closeDelim (buildRawText d) q))
      \<and> (\<forall>seg \<in> set d. isCode seg \<longrightarrow>
            LF \<in> set (language seg @ markerText (readOnly seg) @ newline @ content seg)))"

text \<open>A code segment whose language holds neither the marker nor a closing delimiter.\<close>

definition plainLanguage :: "segment \<Rightarrow> bool" where
  "plainLanguage seg =
     (isCode seg \<longrightarrow> search readonlyMarker (language seg) = None
                    \<and> search closeDelim (language seg) = None)"

text \<open>
  What \<open>getRawText\<close> of Editor.jsx returns in enhanced mode for the raw text
  \<open>rawText\<close>: the segments parsed from it, encoded again.
\<close>

definition enhancedRawText :: "jsstring \<Rightarrow> jsstring option" where
  "enhancedRawText rawText = map_option buildRawText (parseSegments rawText)"

section \<open>Searching\<close>

lemma occurs_at_0_iff: "occurs_at pat s 0 \<longleftrightarrow> take (length pat) s = pat"
proof
  assume "occurs_at pat s 0" then show "take (length pat) s = pat" by (simp add: occurs_at_def)
next
  assume t: "take (length pat) s = pat"
  have "length (take (length pat) s) \<le> length s" by simp
  with t have "length pat \<le> length s" by simp
  with t show "occurs_at pat s 0" by (simp add: occurs_at_def)
qed

lemma occurs_at_Cons_Suc: "occurs_at pat (x # xs) (Suc p) \<longleftrightarrow> occurs_at pat xs p"
  by (simp add: occurs_at_def)

lemma search_Some_iff:
  "search pat s = Some p \<longleftrightarrow> occurs_at pat s p \<and> (\<forall>q<p. \<not> occurs_at pat s q)"
proof (induction s arbitrary: p)
  case Nil
  then show ?case by (auto simp: occurs_at_def)
next
  case (Cons x xs)
  show ?case
  proof (cases "take (length pat) (x # xs) = pat")
    case True
    then have "occurs_at pat (x # xs) 0" by (simp only: occurs_at_0_iff)
    with True show ?thesis by (cases p) auto
  next
    case False
    then have no0: "\<not> occurs_at pat (x # xs) 0" by (simp only: occurs_at_0_iff not_False_eq_True)
    show ?thesis
    proof (cases p)
      case 0
      with False no0 show ?thesis by auto
    next
      case (Suc p')
      have "(\<forall>q<Suc p'. \<not> occurs_at pat (x # xs) q) \<longleftrightarrow> (\<forall>q<p'. \<not> occurs_at pat xs q)"
        using no0 by (auto simp: less_Suc_eq_0_disj occurs_at_Cons_Suc)
      with False Suc Cons.IH[of p'] show ?thesis
        by (auto simp: occurs_at_Cons_Suc)
    qed
  qed
qed

lemma search_None_iff: "search pat s = None \<longleftrightarrow> (\<forall>p. \<not> occurs_at pat s p)"
proof
  assume n: "search pat s = None"
  show "\<forall>p. \<not> occurs_at pat s p"
  proof (rule ccontr)
    assume "\<not> (\<forall>p. \<not> occurs_at pat s p)"
    then obtain p where p: "occurs_at pat s p" by blast
    define m where "m = (LEAST p. occurs_at pat s p)"
    have "occurs_at pat s m" unfolding m_def using p by (rule LeastI)
    moreover have "\<forall>q<m. \<not> occurs_at pat s q" unfolding m_def using not_less_Least by blast
    ultimately have "search pat s = Some m" by (simp add: search_Some_iff)
    with n show False by simp
  qed
next
  assume "\<forall>p. \<not> occurs_at pat s p"
  then show "search pat s = None"
    by (cases "search pat s") (auto simp: search_Some_iff)
qed

lemma search_Some_bound: "search pat s = Some p \<Longrightarrow> p + length pat \<le> length s"
  by (simp add: search_Some_iff occurs_at_def)

lemma indexOf_search:
  "i \<le> length s \<Longrightarrow> indexOf s pat i = map_option (\<lambda>k. i + k) (search pat (drop i s))"
  by (simp add: indexOf_def min_def)

lemma length_openDelim [simp]: "length openDelim = 3" by (simp add: openDelim_def str_def)
lemma length_closeDelim [simp]: "length closeDelim = 3" by (simp add: closeDelim_def str_def)

lemma openDelim_ne [simp]: "openDelim \<noteq> []" by (simp add: openDelim_def str_def)
lemma closeDelim_ne [simp]: "closeDelim \<noteq> []" by (simp add: closeDelim_def str_def)

lemma segmentsOf_Nil [simp]: "segmentsOf [] = []"
  by (simp add: segmentsOf.simps)

lemma segmentsOf_plain:
  "s \<noteq> [] \<Longrightarrow> search openDelim s = None \<Longrightarrow> segmentsOf s = [Text s]"
  by (subst segmentsOf.simps) simp

lemma segmentsOf_open:
  "search openDelim s = Some p \<Longrightarrow> search closeDelim (drop (p + 3) s) = None \<Longrightarrow>
   segmentsOf s = textSeg (take p s) @ [parseCodeBlock (drop (p + 3) s)]"
  by (subst segmentsOf.simps) (auto simp: Let_def)

lemma segmentsOf_closed:
  "search openDelim s = Some p \<Longrightarrow> search closeDelim (drop (p + 3) s) = Some q \<Longrightarrow>
   segmentsOf s =
     textSeg (take p s) @ parseCodeBlock (take q (drop (p + 3) s)) #
     segmentsOf (drop (q + 3) (drop (p + 3) s))"
  by (subst segmentsOf.simps) (auto simp: Let_def)

lemma parseLoop_segmentsOf:
  "i \<le> length s \<Longrightarrow> parseLoop s i acc = Some (acc @ segmentsOf (drop i s))"
proof (induction "length s - i" arbitrary: i acc rule: less_induct)
  case less
  show ?case
  proof (cases "i < length s")
    case False
    with less.prems show ?thesis
      by (subst parseLoop.simps) simp
  next
    case True
    then have ne: "drop i s \<noteq> []" by simp
    show ?thesis
    proof (cases "search openDelim (drop i s)")
      case None
      then have io: "indexOf s openDelim i = None"
        using less.prems by (simp add: indexOf_search)
      have "parseLoop s i acc = Some (acc @ [Text (sliceFrom s i)])"
        by (subst parseLoop.simps) (simp only: True if_True io option.case)
      also have "sliceFrom s i = drop i s"
        using less.prems by (simp add: sliceFrom_def min_def)
      finally show ?thesis
        using segmentsOf_plain[OF ne None] by simp
    next
      case (Some p)
      note op = Some
      from search_Some_bound[OF op] have pb: "i + p + 3 \<le> length s" by simp
      have io: "indexOf s openDelim i = Some (i + p)"
        using less.prems op by (simp add: indexOf_search)
      have tx: "(if i < i + p then acc @ [Text (slice s i (i + p))] else acc)
                  = acc @ textSeg (take p (drop i s))"
        using pb by (auto simp: slice_def textSeg_def min_def)
      have dd: "drop (i + p + 3) s = drop (p + 3) (drop i s)"
        by (simp add: ac_simps)
      show ?thesis
      proof (cases "search closeDelim (drop (p + 3) (drop i s))")
        case None
        then have ic: "indexOf s closeDelim (i + p + 3) = None"
          using pb by (simp add: indexOf_search dd)
        have sf: "sliceFrom s (i + p + 3) = drop (p + 3) (drop i s)"
          using pb by (simp add: sliceFrom_def min_def ac_simps)
        have "parseLoop s i acc
                = Some ((acc @ textSeg (take p (drop i s))) @ [parseCodeBlock (drop (p + 3) (drop i s))])"
          by (subst parseLoop.simps)
             (simp only: True if_True io option.case Let_def tx ic sf)
        then show ?thesis
          using segmentsOf_open[OF op None] by simp
      next
        case (Some q)
        note cl = Some
        from search_Some_bound[OF cl] have qb: "i + p + 3 + q + 3 \<le> length s" by simp
        have ic: "indexOf s closeDelim (i + p + 3) = Some (i + p + 3 + q)"
          using pb cl by (simp add: indexOf_search dd)
        have sl: "slice s (i + p + 3) (i + p + 3 + q) = take q (drop (p + 3) (drop i s))"
          using qb by (simp add: slice_def min_def dd)
        have dd2: "drop (i + p + 3 + q + 3) s = drop (q + 3) (drop (p + 3) (drop i s))"
          by (simp add: ac_simps)
        have "length s - (i + p + 3 + q + 3) < length s - i" using True by simp
        note IH = less.hyps[OF this qb]
        have "parseLoop s i acc
                = parseLoop s (i + p + 3 + q + 3)
                    ((acc @ textSeg (take p (drop i s))) @
                     [parseCodeBlock (take q (drop (p + 3) (drop i s)))])"
          by (subst parseLoop.simps)
             (simp only: True if_True io option.case Let_def tx ic sl)
        also have "\<dots> = Some (((acc @ textSeg (take p (drop i s))) @
                     [parseCodeBlock (take q (drop (p + 3) (drop i s)))]) @
                     segmentsOf (drop (q + 3) (drop (p + 3) (drop i s))))"
          by (simp only: IH dd2)
        finally show ?thesis
          by (simp only: segmentsOf_closed[OF op cl] append_assoc append_Cons append_Nil)
      qed
    qed
  qed
qed

lemma parseSegments_segmentsOf: "parseSegments s = Some (segmentsOf s)"
  using parseLoop_segmentsOf[of 0 s "[]"] by (simp add: parseSegments_def)

section \<open>The encoder joins the renderings\<close>

lemma join_empty_sep: "join xs [] = concat xs"
  by (induction xs "[] :: 'a list" rule: join.induct) simp_all

lemma buildRawText_concat: "buildRawText segments = concat (map renderSegment segments)"
  by (simp add: buildRawText_def join_empty_sep)

lemma buildRawText_Nil [simp]: "buildRawText [] = []"
  by (simp add: buildRawText_concat)

lemma buildRawText_Cons [simp]: "buildRawText (seg # segs) = renderSegment seg @ buildRawText segs"
  by (simp add: buildRawText_concat)

lemma buildRawText_append [simp]: "buildRawText (xs @ ys) = buildRawText xs @ buildRawText ys"
  by (simp add: buildRawText_concat)

lemma renderSegment_Text [simp]: "renderSegment (Text c) = c"
  by (simp add: renderSegment_def)

lemma renderSegment_Code:
  "renderSegment (Code l r c) =
     openDelim @ l @ (if r then str '' [readonly]'' else []) @ newline @ c @ closeDelim"
  by (simp add: renderSegment_def)

section \<open>Occurrences in parts of a string\<close>

lemma occurs_at_drop:
  "k \<le> length s \<Longrightarrow> occurs_at pat (drop k s) q \<longleftrightarrow> occurs_at pat s (k + q)"
  by (auto simp: occurs_at_def ac_simps)

lemma occurs_at_take:
  "occurs_at pat (take n s) q \<longleftrightarrow> occurs_at pat s q \<and> q + length pat \<le> n"
proof (cases "q + length pat \<le> n")
  case True
  then have "take (length pat) (drop q (take n s)) = take (length pat) (drop q s)"
    by (simp add: drop_take)
  with True show ?thesis by (auto simp: occurs_at_def)
next
  case False
  then show ?thesis by (auto simp: occurs_at_def)
qed

lemma occurs_at_nth:
  "occurs_at pat s p \<longleftrightarrow> p + length pat \<le> length s \<and> (\<forall>i<length pat. s ! (p + i) = pat ! i)"
  by (auto simp: occurs_at_def list_eq_iff_nth_eq)

lemma occurs_at_append_left:
  "p + length pat \<le> length u \<Longrightarrow> occurs_at pat (u @ v) p \<longleftrightarrow> occurs_at pat u p"
  by (auto simp: occurs_at_def)

lemma occurs_at_append_right:
  "occurs_at pat (u @ v) (length u + q) \<longleftrightarrow> occurs_at pat v q"
  by (auto simp: occurs_at_def)

lemma search_take:
  "search pat s = Some a \<Longrightarrow> a + length pat \<le> n \<Longrightarrow> search pat (take n s) = Some a"
  by (auto simp: search_Some_iff occurs_at_take)

lemma search_None_take:
  "search pat s = Some a \<Longrightarrow> pat \<noteq> [] \<Longrightarrow> search pat (take a s) = None"
proof -
  assume a: "search pat s = Some a" and ne: "pat \<noteq> []"
  have "\<not> occurs_at pat (take a s) p" for p
  proof
    assume "occurs_at pat (take a s) p"
    then have o: "occurs_at pat s p" and b: "p + length pat \<le> a" by (simp_all add: occurs_at_take)
    from ne b have "p < a" by (cases pat) auto
    with a o show False by (simp add: search_Some_iff)
  qed
  then show ?thesis by (simp add: search_None_iff)
qed

lemma openDelim_nth: "i < 3 \<Longrightarrow> openDelim ! i = 0x7B"
  by (auto simp: openDelim_def str_def less_Suc_eq numeral_3_eq_3)

lemma closeDelim_nth: "i < 3 \<Longrightarrow> closeDelim ! i = 0x7D"
  by (auto simp: closeDelim_def str_def less_Suc_eq numeral_3_eq_3)

lemma occurs_open_nth:
  "occurs_at openDelim s p \<Longrightarrow> p \<le> j \<Longrightarrow> j < p + 3 \<Longrightarrow> s ! j = 0x7B"
proof -
  assume o: "occurs_at openDelim s p" and 1: "p \<le> j" and 2: "j < p + 3"
  then have "j - p < 3" by simp
  with o have "s ! (p + (j - p)) = openDelim ! (j - p)" by (simp add: occurs_at_nth)
  with 1 \<open>j - p < 3\<close> show ?thesis by (simp add: openDelim_nth)
qed

lemma occurs_close_nth:
  "occurs_at closeDelim s p \<Longrightarrow> p \<le> j \<Longrightarrow> j < p + 3 \<Longrightarrow> s ! j = 0x7D"
proof -
  assume o: "occurs_at closeDelim s p" and 1: "p \<le> j" and 2: "j < p + 3"
  then have "j - p < 3" by simp
  with o have "s ! (p + (j - p)) = closeDelim ! (j - p)" by (simp add: occurs_at_nth)
  with 1 \<open>j - p < 3\<close> show ?thesis by (simp add: closeDelim_nth)
qed

lemma open_close_apart:
  assumes "occurs_at openDelim s p" "occurs_at closeDelim s q"
  shows "p + 3 \<le> q \<or> q + 3 \<le> p"
proof (rule ccontr)
  assume "\<not> ?thesis"
  then have "p \<le> max p q" "max p q < p + 3" "q \<le> max p q" "max p q < q + 3" by auto
  from occurs_open_nth[OF assms(1) this(1,2)] occurs_close_nth[OF assms(2) this(3,4)]
  show False by simp
qed

lemma segmentsOf_no_open: "search openDelim t = None \<Longrightarrow> segmentsOf t = textSeg t"
  by (cases "t = []") (simp_all add: textSeg_def segmentsOf_plain)

lemma isCode_parseCodeBlock [simp]: "isCode (parseCodeBlock b)"
  by (simp add: parseCodeBlock_def Let_def split: prod.splits)

lemma segmentsOf_unclosed:
  assumes "occurs_at openDelim s p" "\<forall>q\<ge>p + 3. \<not> occurs_at closeDelim s q"
  shows "\<exists>p0\<le>p. occurs_at openDelim s p0 \<and> (\<forall>q\<ge>p0 + 3. \<not> occurs_at closeDelim s q)
           \<and> segmentsOf s = segmentsOf (take p0 s) @ [parseCodeBlock (drop (p0 + 3) s)]"
  using assms
proof (induction s arbitrary: p rule: segmentsOf.induct)
  case (1 s)
  from "1.prems"(1) have "search openDelim s \<noteq> None" by (auto simp: search_None_iff)
  then obtain a where a: "search openDelim s = Some a" by auto
  then have a_occ: "occurs_at openDelim s a" and a_min: "\<forall>q<a. \<not> occurs_at openDelim s q"
    by (simp_all add: search_Some_iff)
  from a_min "1.prems"(1) have ap: "a \<le> p" by (meson not_le)
  from a_occ have ab: "a + 3 \<le> length s" by (simp add: occurs_at_def)
  then have ne: "s \<noteq> []" by auto
  let ?b = "drop (a + 3) s"
  have pre: "segmentsOf (take a s) = textSeg (take a s)"
    by (rule segmentsOf_no_open) (rule search_None_take[OF a openDelim_ne])
  show ?case
  proof (cases "search closeDelim ?b")
    case None
    have "\<not> occurs_at closeDelim s q" if "q \<ge> a + 3" for q
    proof
      assume "occurs_at closeDelim s q"
      with that have "occurs_at closeDelim s (a + 3 + (q - (a + 3)))" by simp
      with ab have "occurs_at closeDelim ?b (q - (a + 3))" by (simp add: occurs_at_drop)
      with None show False by (simp add: search_None_iff)
    qed
    moreover have "segmentsOf s = segmentsOf (take a s) @ [parseCodeBlock ?b]"
      by (simp only: pre segmentsOf_open[OF a None])
    ultimately show ?thesis using ap a_occ by blast
  next
    case (Some e)
    define k where "k = a + 3 + e + 3"
    define rest where "rest = drop k s"
    have req: "drop (e + 3) (drop (a + 3) s) = rest" by (simp add: rest_def k_def ac_simps)
    from Some have e_occ: "occurs_at closeDelim ?b e" by (simp add: search_Some_iff)
    with ab have c_occ: "occurs_at closeDelim s (a + 3 + e)" by (simp add: occurs_at_drop)
    then have kb: "k \<le> length s" by (simp add: occurs_at_def k_def)
    have occ: "occurs_at pat rest q \<longleftrightarrow> occurs_at pat s (k + q)" for pat :: jsstring and q
      unfolding rest_def using kb by (rule occurs_at_drop)
    from "1.prems"(2) c_occ have "\<not> p + 3 \<le> a + 3 + e" by blast
    with open_close_apart[OF "1.prems"(1) c_occ] have kp: "k \<le> p" by (simp add: k_def)
    then have r1: "occurs_at openDelim rest (p - k)" using "1.prems"(1) by (simp add: occ)
    have r2: "\<forall>q\<ge>p - k + 3. \<not> occurs_at closeDelim rest q"
    proof (intro allI impI)
      fix q assume "q \<ge> p - k + 3"
      with kp have "k + q \<ge> p + 3" by simp
      with "1.prems"(2) show "\<not> occurs_at closeDelim rest q" by (simp add: occ)
    qed
    from "1.IH"[OF ne a refl Some, unfolded req, OF r1 r2]
    obtain p0 where p0: "p0 \<le> p - k" "occurs_at openDelim rest p0"
      "\<forall>q\<ge>p0 + 3. \<not> occurs_at closeDelim rest q"
      "segmentsOf rest = segmentsOf (take p0 rest) @ [parseCodeBlock (drop (p0 + 3) rest)]"
      by blast
    let ?P = "k + p0"
    have P1: "?P \<le> p" using p0(1) kp by simp
    have P2: "occurs_at openDelim s ?P" using p0(2) by (simp add: occ)
    have P3: "\<forall>q\<ge>?P + 3. \<not> occurs_at closeDelim s q"
    proof (intro allI impI)
      fix q assume q: "q \<ge> ?P + 3"
      then have "q - k \<ge> p0 + 3" by simp
      with p0(3) have "\<not> occurs_at closeDelim rest (q - k)" by blast
      then have "\<not> occurs_at closeDelim s (k + (q - k))" by (simp add: occ)
      with q show "\<not> occurs_at closeDelim s q" by simp
    qed
    have t1: "search openDelim (take ?P s) = Some a"
      by (rule search_take[OF a]) (simp add: k_def)
    have t2: "drop (a + 3) (take ?P s) = take (e + 3 + p0) ?b"
      by (simp add: drop_take k_def ac_simps)
    have t3: "search closeDelim (take (e + 3 + p0) ?b) = Some e"
      by (rule search_take[OF Some]) simp
    have t6: "drop (e + 3) (take (e + 3 + p0) ?b) = take p0 rest"
      by (simp add: drop_take rest_def k_def ac_simps)
    have t7: "take e (take (e + 3 + p0) ?b) = take e ?b" "take a (take ?P s) = take a s"
      by (simp_all add: k_def min_def)
    have t4: "segmentsOf (take ?P s) =
        textSeg (take a s) @ parseCodeBlock (take e ?b) # segmentsOf (take p0 rest)"
      using segmentsOf_closed[OF t1 t3[folded t2]]
      by (simp only: t2 t6 t7)
    have t5: "drop (?P + 3) s = drop (p0 + 3) rest"
      by (simp add: rest_def ac_simps)
    have t8: "segmentsOf s = textSeg (take a s) @ parseCodeBlock (take e ?b) # segmentsOf rest"
      using segmentsOf_closed[OF a Some] by (simp only: req)
    have "segmentsOf s = segmentsOf (take ?P s) @ [parseCodeBlock (drop (?P + 3) s)]"
      by (simp only: t8 t4 t5 p0(4) append_assoc append_Cons)
    with P1 P2 P3 show ?thesis by blast
  qed
qed

section \<open>C3: the decoder returns on every string\<close>

text \<open>
  C3. \<open>parseSegments\<close> is total: on every string, the empty string, a string without
  delimiters, one with an unmatched opening delimiter and one whose block has no newline
  among them, the loop ends and returns a list of segments. The result type has no error
  value: the only way not to return segments is not to return, which is \<open>None\<close>.
\<close>

theorem parseSegments_total:
  "(\<exists>segments. parseSegments rawText = Some segments)
   \<and> parseSegments [] = Some []
   \<and> parseSegments (str ''no delimiters here'') = Some [Text (str ''no delimiters here'')]
   \<and> parseSegments (str ''a{{{b'') = Some [Text (str ''a''), Code (str ''b'') False []]
   \<and> parseSegments (str ''{{{js}}}'') = Some [Code (str ''js'') False []]"
proof -
  have "\<exists>segments. parseSegments rawText = Some segments"
    by (simp add: parseSegments_segmentsOf)
  moreover have "parseSegments [] = Some []"
    by code_simp
  moreover have "parseSegments (str ''no delimiters here'') = Some [Text (str ''no delimiters here'')]"
    by code_simp
  moreover have "parseSegments (str ''a{{{b'') = Some [Text (str ''a''), Code (str ''b'') False []]"
    by code_simp
  moreover have "parseSegments (str ''{{{js}}}'') = Some [Code (str ''js'') False []]"
    by code_simp
  ultimately show ?thesis by (intro conjI)
qed

section \<open>C5: what the encoder writes\<close>

text \<open>
  C5. \<open>buildRawText\<close> is the concatenation, in order and with no separator, of the
  renderings of the segments. A text segment renders as its content; a code segment as
  the opening delimiter, the language, the marker with one leading space exactly when
  \<open>readOnly\<close> is true, a newline, the content and the closing delimiter. The
  segment \<open>Code js true "let x;"\<close> alone encodes to \<open>{{{js [readonly]\nlet x;}}}\<close>.
\<close>

theorem buildRawText_renders:
  "buildRawText segments = concat (map renderSegment segments)
   \<and> renderSegment (Text c) = c
   \<and> renderSegment (Code l r c) =
       str ''{{{'' @ l @ (if r then str '' [readonly]'' else []) @ str ''\<newline>'' @ c @ str ''}}}''
   \<and> buildRawText [Code (str ''js'') True (str ''let x;'')]
       = str ''{{{js [readonly]\<newline>let x;}}}''"
  by (simp add: buildRawText_concat renderSegment_Code openDelim_def closeDelim_def
        newline_def LF_def str_def)

section \<open>C7: a string without an opening delimiter\<close>

text \<open>
  C7. When the opening delimiter stands nowhere in \<open>s\<close>, \<open>parseSegments s\<close> is the
  one text segment with content \<open>s\<close>, and no segment at all when \<open>s\<close> is empty.
\<close>

theorem parseSegments_no_delimiter:
  "\<forall>p. \<not> occurs_at openDelim s p \<Longrightarrow>
   parseSegments s = Some (if s = [] then [] else [Text s])"
  by (simp add: parseSegments_segmentsOf segmentsOf_plain search_None_iff)

lemma search_plain_example: "search openDelim (str ''no delimiters here'') = None"
  by code_simp

theorem parseSegments_no_delimiter_witness:
  "(\<forall>p. \<not> occurs_at openDelim (str ''no delimiters here'') p)
   \<and> parseSegments (str ''no delimiters here'') = Some [Text (str ''no delimiters here'')]
   \<and> (\<forall>p. \<not> occurs_at openDelim [] p) \<and> parseSegments [] = Some []"
proof -
  have h: "\<forall>p. \<not> occurs_at openDelim (str ''no delimiters here'') p"
    using search_plain_example by (simp add: search_None_iff)
  have h0: "\<forall>p. \<not> occurs_at openDelim [] p"
    by (simp add: occurs_at_def)
  have ne: "str ''no delimiters here'' \<noteq> []" by (simp add: str_def)
  have 1: "parseSegments (str ''no delimiters here'') = Some [Text (str ''no delimiters here'')]"
    using parseSegments_no_delimiter[OF h] ne by simp
  have 2: "parseSegments [] = Some []"
    using parseSegments_no_delimiter[OF h0] by simp
  from h 1 h0 2 show ?thesis by (intro conjI)
qed

section \<open>C8: editing the content of one code segment\<close>

text \<open>
  C8. \<open>handleSegmentChange\<close> at the index of a code segment returns the list in which
  that segment has the new content and its language and read-only flag as before; every
  other segment is the one it was, so its rendering is the one it was, and the encoded
  text changes only in the rendering of the edited segment.
\<close>

theorem handleSegmentChange_frame:
  "idx < length segments \<Longrightarrow> segments ! idx = Code l r c \<Longrightarrow>
   \<exists>updated. handleSegmentChange segments idx newValue = Some updated
     \<and> length updated = length segments
     \<and> updated ! idx = Code l r newValue
     \<and> (\<forall>j < length segments. j \<noteq> idx \<longrightarrow>
           updated ! j = segments ! j \<and> renderSegment (updated ! j) = renderSegment (segments ! j))
     \<and> buildRawText updated
         = buildRawText (take idx segments) @ renderSegment (Code l r newValue)
           @ buildRawText (drop (Suc idx) segments)"
proof -
  assume i: "idx < length segments" and c: "segments ! idx = Code l r c"
  let ?u = "segments[idx := Code l r newValue]"
  have 1: "handleSegmentChange segments idx newValue = Some ?u"
    using i c by (simp add: handleSegmentChange_def)
  have 2: "?u = take idx segments @ Code l r newValue # drop (Suc idx) segments"
    using i by (rule upd_conv_take_nth_drop)
  have 3: "buildRawText ?u = buildRawText (take idx segments) @ renderSegment (Code l r newValue)
           @ buildRawText (drop (Suc idx) segments)"
    by (subst 2) simp
  show ?thesis
    using i 1 3 by simp
qed

theorem handleSegmentChange_frame_witness:
  "1 < length [Text (str ''a''), Code (str ''js'') False (str ''x''), Text (str ''b'')]
   \<and> [Text (str ''a''), Code (str ''js'') False (str ''x''), Text (str ''b'')] ! 1
       = Code (str ''js'') False (str ''x'')
   \<and> (\<exists>updated.
         handleSegmentChange [Text (str ''a''), Code (str ''js'') False (str ''x''), Text (str ''b'')]
            1 (str ''y'') = Some updated
       \<and> updated ! 0 = Text (str ''a'')
       \<and> updated ! 1 = Code (str ''js'') False (str ''y'')
       \<and> updated ! 2 = Text (str ''b'')
       \<and> buildRawText updated = str ''a{{{js\<newline>y}}}b'')"
proof -
  let ?segs = "[Text (str ''a''), Code (str ''js'') False (str ''x''), Text (str ''b'')]"
  have h1: "1 < length ?segs" by simp
  have h2: "?segs ! 1 = Code (str ''js'') False (str ''x'')" by simp
  from handleSegmentChange_frame[OF h1 h2, of "str ''y''"]
  obtain updated where u: "handleSegmentChange ?segs 1 (str ''y'') = Some updated"
    and n: "updated ! 1 = Code (str ''js'') False (str ''y'')"
    and f: "\<forall>j < length ?segs. j \<noteq> 1 \<longrightarrow> updated ! j = ?segs ! j"
    and b: "buildRawText updated = buildRawText (take 1 ?segs)
              @ renderSegment (Code (str ''js'') False (str ''y'')) @ buildRawText (drop (Suc 1) ?segs)"
    by blast
  from f have f0: "updated ! 0 = Text (str ''a'')" by simp
  from f have f2: "updated ! 2 = Text (str ''b'')" by simp
  from b have b': "buildRawText updated = str ''a{{{js\<newline>y}}}b''"
    by (simp add: renderSegment_Code openDelim_def closeDelim_def newline_def LF_def str_def)
  from h1 h2 u f0 n f2 b' show ?thesis by blast
qed

section \<open>C10: the two encoders on segments that are not read-only\<close>

text \<open>
  C10. On a list of segments in which no code segment is read-only, \<open>buildRawText\<close> of
  parseSegments.js and \<open>buildRawText\<close> of Editor.jsx return the same string.
\<close>

theorem buildRawText_variants_agree:
  "\<forall>seg \<in> set segments. isCode seg \<longrightarrow> \<not> readOnly seg \<Longrightarrow>
   buildRawTextLegacy segments = buildRawText segments"
proof -
  assume a: "\<forall>seg \<in> set segments. isCode seg \<longrightarrow> \<not> readOnly seg"
  have "renderSegmentLegacy seg = renderSegment seg"
    if "isCode seg \<longrightarrow> \<not> readOnly seg" for seg
    using that by (cases seg) (simp_all add: renderSegmentLegacy_def renderSegment_def)
  with a show ?thesis
    by (simp add: buildRawTextLegacy_def buildRawText_def cong: map_cong)
qed

theorem buildRawText_variants_agree_witness:
  "buildRawTextLegacy [Text (str ''a''), Code (str ''js'') False (str ''x''), Code [] False (str ''y'')]
     = str ''a{{{js\<newline>x}}}{{{\<newline>y}}}''
   \<and> buildRawText [Text (str ''a''), Code (str ''js'') False (str ''x''), Code [] False (str ''y'')]
     = str ''a{{{js\<newline>x}}}{{{\<newline>y}}}''"
proof -
  have h: "\<forall>seg \<in> set [Text (str ''a''), Code (str ''js'') False (str ''x''), Code [] False (str ''y'')].
      isCode seg \<longrightarrow> \<not> readOnly seg" by simp
  have "buildRawText [Text (str ''a''), Code (str ''js'') False (str ''x''), Code [] False (str ''y'')]
     = str ''a{{{js\<newline>x}}}{{{\<newline>y}}}''"
    by (simp add: renderSegment_Code openDelim_def closeDelim_def newline_def LF_def str_def)
  with buildRawText_variants_agree[OF h] show ?thesis by simp
qed

section \<open>Invariants of the decoded segments\<close>

lemma noAdjacentText_nth:
  "noAdjacentText segs \<Longrightarrow> Suc i < length segs \<Longrightarrow> isCode (segs ! i) \<or> isCode (segs ! Suc i)"
proof (induction segs arbitrary: i rule: noAdjacentText.induct)
  case (3 x y r)
  then show ?case by (cases i) auto
qed simp_all

lemma noAdjacentText_block:
  "isCode c \<Longrightarrow> noAdjacentText rest \<Longrightarrow> noAdjacentText (textSeg t @ c # rest)"
  by (cases rest) (auto simp: textSeg_def)

lemma noAdjacentText_segmentsOf: "noAdjacentText (segmentsOf s)"
proof (induction s rule: segmentsOf.induct)
  case (1 s)
  show ?case
  proof (cases "s = []")
    case True then show ?thesis by simp
  next
    case ne: False
    show ?thesis
    proof (cases "search openDelim s")
      case None
      with ne show ?thesis by (simp add: segmentsOf_plain)
    next
      case (Some p)
      note op = Some
      show ?thesis
      proof (cases "search closeDelim (drop (p + 3) s)")
        case None
        have "noAdjacentText (textSeg (take p s) @ parseCodeBlock (drop (p + 3) s) # [])"
          by (rule noAdjacentText_block) simp_all
        then show ?thesis by (simp add: segmentsOf_open[OF op None])
      next
        case (Some q)
        from "1.IH"[OF ne op refl Some] show ?thesis
          by (simp only: segmentsOf_closed[OF op Some]) (rule noAdjacentText_block, simp_all)
      qed
    qed
  qed
qed

lemma plainText_segmentsOf: "seg \<in> set (segmentsOf s) \<Longrightarrow> plainText seg"
proof (induction s rule: segmentsOf.induct)
  case (1 s)
  show ?case
  proof (cases "s = []")
    case True with "1.prems" show ?thesis by simp
  next
    case ne: False
    show ?thesis
    proof (cases "search openDelim s")
      case None
      with ne "1.prems" show ?thesis by (simp add: segmentsOf_plain plainText_def)
    next
      case (Some p)
      note op = Some
      have tx: "plainText x" if "x \<in> set (textSeg (take p s))" for x
        using that search_None_take[OF op openDelim_ne]
        by (auto simp: textSeg_def plainText_def split: if_splits)
      have cd: "plainText (parseCodeBlock b)" for b
        using isCode_parseCodeBlock[of b] by (cases "parseCodeBlock b") (auto simp: plainText_def)
      show ?thesis
      proof (cases "search closeDelim (drop (p + 3) s)")
        case None
        with "1.prems" tx cd show ?thesis
          by (auto simp: segmentsOf_open[OF op None])
      next
        case (Some q)
        with "1.prems" tx cd "1.IH"[OF ne op refl Some] show ?thesis
          by (auto simp: segmentsOf_closed[OF op Some])
      qed
    qed
  qed
qed

section \<open>C9: the text segments of a decoded string\<close>

text \<open>
  C9. Every text segment that \<open>parseSegments\<close> returns has a content that is not
  empty and in which the opening delimiter stands nowhere, and no two text segments
  follow one another in the result.
\<close>

theorem parseSegments_text_segments:
  "parseSegments s = Some segs \<Longrightarrow>
   (\<forall>seg \<in> set segs. isText seg \<longrightarrow>
      content seg \<noteq> [] \<and> (\<forall>p. \<not> occurs_at openDelim (content seg) p))
   \<and> (\<forall>i. Suc i < length segs \<longrightarrow> \<not> (isText (segs ! i) \<and> isText (segs ! Suc i)))"
proof -
  assume "parseSegments s = Some segs"
  then have segs: "segs = segmentsOf s" by (simp add: parseSegments_segmentsOf)
  have 1: "\<forall>seg \<in> set segs. isText seg \<longrightarrow>
      content seg \<noteq> [] \<and> (\<forall>p. \<not> occurs_at openDelim (content seg) p)"
    using plainText_segmentsOf[of _ s] unfolding segs plainText_def search_None_iff by blast
  have 2: "\<forall>i. Suc i < length segs \<longrightarrow> \<not> (isText (segs ! i) \<and> isText (segs ! Suc i))"
  proof (intro allI impI)
    fix i assume "Suc i < length segs"
    with noAdjacentText_nth[OF noAdjacentText_segmentsOf[of s], of i]
    have "isCode (segs ! i) \<or> isCode (segs ! Suc i)" by (simp add: segs)
    then show "\<not> (isText (segs ! i) \<and> isText (segs ! Suc i))"
      by (cases "segs ! i"; cases "segs ! Suc i") simp_all
  qed
  from 1 2 show ?thesis ..
qed

lemma text_segments_example:
  "parseSegments (str ''abc{{{python\<newline>print(1)}}}def'')
     = Some [Text (str ''abc''), Code (str ''python'') False (str ''print(1)''), Text (str ''def'')]"
  by code_simp

theorem parseSegments_text_segments_witness:
  "parseSegments (str ''abc{{{python\<newline>print(1)}}}def'')
     = Some [Text (str ''abc''), Code (str ''python'') False (str ''print(1)''), Text (str ''def'')]
   \<and> str ''abc'' \<noteq> [] \<and> (\<forall>p. \<not> occurs_at openDelim (str ''abc'') p)
   \<and> str ''def'' \<noteq> [] \<and> (\<forall>p. \<not> occurs_at openDelim (str ''def'') p)"
proof -
  let ?segs = "[Text (str ''abc''), Code (str ''python'') False (str ''print(1)''), Text (str ''def'')]"
  note t = parseSegments_text_segments[OF text_segments_example]
  from t have a: "\<forall>seg \<in> set ?segs. isText seg \<longrightarrow>
      content seg \<noteq> [] \<and> (\<forall>p. \<not> occurs_at openDelim (content seg) p)" by blast
  from a have "str ''abc'' \<noteq> [] \<and> (\<forall>p. \<not> occurs_at openDelim (str ''abc'') p)" by simp
  moreover from a have "str ''def'' \<noteq> [] \<and> (\<forall>p. \<not> occurs_at openDelim (str ''def'') p)" by simp
  ultimately show ?thesis using text_segments_example by blast
qed

section \<open>The first opening delimiter that is never closed\<close>

lemma no_occurrence_from:
  "k \<le> length s \<Longrightarrow> search pat (drop k s) = None \<Longrightarrow> \<forall>q\<ge>k. \<not> occurs_at pat s q"
proof (intro allI impI)
  fix q assume k: "k \<le> length s" and n: "search pat (drop k s) = None" and q: "k \<le> q"
  from n have "\<not> occurs_at pat (drop k s) (q - k)" by (simp add: search_None_iff)
  with k q show "\<not> occurs_at pat s q" by (simp add: occurs_at_drop)
qed

lemma no_close_from:
  "k \<le> length s \<Longrightarrow> search closeDelim (drop k s) = None \<Longrightarrow> \<forall>q\<ge>k. \<not> occurs_at closeDelim s q"
proof (intro allI impI)
  fix q assume k: "k \<le> length s" and n: "search closeDelim (drop k s) = None" and q: "k \<le> q"
  from n have "\<not> occurs_at closeDelim (drop k s) (q - k)" by (simp add: search_None_iff)
  with k q show "\<not> occurs_at closeDelim s q" by (simp add: occurs_at_drop)
qed

lemma segmentsOf_first_unclosed:
  assumes "occurs_at openDelim s p" "\<forall>q\<ge>p + 3. \<not> occurs_at closeDelim s q"
  shows "\<exists>p0\<le>p. occurs_at openDelim s p0 \<and> (\<forall>q\<ge>p0 + 3. \<not> occurs_at closeDelim s q)
           \<and> (\<forall>p'<p0. occurs_at openDelim s p' \<longrightarrow> (\<exists>q\<ge>p' + 3. occurs_at closeDelim s q))
           \<and> segmentsOf s = segmentsOf (take p0 s) @ [parseCodeBlock (drop (p0 + 3) s)]"
proof -
  let ?U = "\<lambda>p. occurs_at openDelim s p \<and> (\<forall>q\<ge>p + 3. \<not> occurs_at closeDelim s q)"
  define m where "m = (LEAST p. ?U p)"
  from assms have "?U p" by blast
  then have m: "?U m" and mp: "m \<le> p" unfolding m_def by (rule LeastI, rule Least_le)
  have least: "\<not> ?U p'" if "p' < m" for p'
    using that not_less_Least unfolding m_def by blast
  from m segmentsOf_unclosed[of s m]
  obtain p0 where p0: "p0 \<le> m" "?U p0"
    "segmentsOf s = segmentsOf (take p0 s) @ [parseCodeBlock (drop (p0 + 3) s)]"
    by blast
  from p0(1,2) least have "p0 = m" by (metis le_neq_implies_less)
  with p0 mp least show ?thesis by blast
qed

section \<open>Splitting, replacing and trimming\<close>

lemma splitOn_view:
  "splitOn b sep =
     takeWhile (\<lambda>u. u \<noteq> sep) b #
     (case dropWhile (\<lambda>u. u \<noteq> sep) b of [] \<Rightarrow> [] | x # r \<Rightarrow> splitOn r sep)"
  by (induction b) (auto split: list.splits)

lemma join_splitOn: "join (splitOn b sep) [sep] = b"
proof (induction b)
  case Nil
  show ?case by simp
next
  case (Cons x xs)
  show ?case
  proof (cases "x = sep")
    case True
    with Cons show ?thesis by (cases "splitOn xs sep") (simp_all add: splitOn_view)
  next
    case False
    obtain l ls where sp: "splitOn xs sep = l # ls" by (cases "splitOn xs sep") (simp_all add: splitOn_view)
    with Cons False show ?thesis by (cases ls) auto
  qed
qed

lemma join_tl_splitOn:
  "join (tl (splitOn b sep)) [sep] = drop (Suc (length (takeWhile (\<lambda>u. u \<noteq> sep) b))) b"
proof -
  let ?h = "takeWhile (\<lambda>u. u \<noteq> sep) b" and ?d = "dropWhile (\<lambda>u. u \<noteq> sep) b"
  have d: "drop (length ?h) b = ?d" by (rule dropWhile_eq_drop[symmetric])
  have "drop (Suc (length ?h)) b = drop 1 (drop (length ?h) b)" by simp
  also have "\<dots> = drop 1 ?d" by (simp only: d)
  finally have e: "drop (Suc (length ?h)) b = drop 1 ?d" .
  show ?thesis
  proof (cases ?d)
    case Nil
    have sp: "splitOn b sep = [?h]" by (subst splitOn_view) (simp only: Nil list.case)
    have "drop (Suc (length ?h)) b = []" using e by (simp only: Nil drop_Nil)
    then show ?thesis by (simp only: sp list.sel join.simps)
  next
    case (Cons x r)
    have sp: "splitOn b sep = ?h # splitOn r sep"
      by (subst splitOn_view) (simp only: Cons list.case)
    have "drop (Suc (length ?h)) b = r"
      using e by (simp only: Cons drop_Suc_Cons drop_0 One_nat_def)
    then show ?thesis by (simp only: sp list.sel join_splitOn)
  qed
qed

lemma includesStr_iff: "includesStr s pat \<longleftrightarrow> (\<exists>p. occurs_at pat s p)"
  by (simp add: includesStr_def indexOf_search search_None_iff)

lemma includesStr_search: "includesStr s pat \<longleftrightarrow> search pat s \<noteq> None"
  by (simp add: includesStr_def indexOf_search)

lemma replace_first:
  "search pat s = Some p \<Longrightarrow> replace s pat rep = take p s @ rep @ drop (p + length pat) s"
  by (simp add: replace_def indexOf_search)

lemma split_at_occurrence:
  "occurs_at pat s p \<Longrightarrow> s = take p s @ pat @ drop (p + length pat) s"
proof -
  assume o: "occurs_at pat s p"
  have 1: "take p s @ drop p s = s" by (rule append_take_drop_id)
  have 2: "take (length pat) (drop p s) @ drop (length pat) (drop p s) = drop p s"
    by (rule append_take_drop_id)
  have 3: "take (length pat) (drop p s) = pat" using o by (simp add: occurs_at_def)
  have 4: "drop (length pat) (drop p s) = drop (p + length pat) s" by (simp add: ac_simps)
  from 2 have "pat @ drop (p + length pat) s = drop p s" by (simp only: 3 4)
  with 1 show ?thesis by simp
qed

lemma trim_ends: "trim s = [] \<or> (\<not> isWhiteSpace (hd (trim s)) \<and> \<not> isWhiteSpace (last (trim s)))"
proof -
  let ?d = "dropWhile isWhiteSpace s"
  let ?e = "dropWhile isWhiteSpace (rev ?d)"
  show ?thesis
  proof (cases "?e = []")
    case True
    then show ?thesis by (simp add: trim_def)
  next
    case False
    have d: "?d \<noteq> []"
    proof
      assume "?d = []"
      then have "?e = []" by (simp only: rev.simps dropWhile.simps)
      with False show False ..
    qed
    then have hd: "\<not> isWhiteSpace (hd ?d)" by (rule hd_dropWhile)
    from False have he: "\<not> isWhiteSpace (hd ?e)" by (rule hd_dropWhile)
    have "hd ?d \<in> set (rev ?d)" using d by simp
    from dropWhile_last[of "hd ?d" "rev ?d" isWhiteSpace, OF this hd] have "last ?e = last (rev ?d)" .
    also have "\<dots> = hd ?d" using d by (simp add: last_rev)
    finally have le: "\<not> isWhiteSpace (last ?e)" using hd by simp
    have "hd (trim s) = last ?e" "last (trim s) = hd ?e"
      using False by (simp_all add: trim_def hd_rev last_rev)
    with he le show ?thesis by simp
  qed
qed

lemma trim_fixed:
  "s = [] \<or> (\<not> isWhiteSpace (hd s) \<and> \<not> isWhiteSpace (last s)) \<Longrightarrow> trim s = s"
proof (cases "s = []")
  case True
  then show ?thesis by (simp add: trim_def)
next
  case False
  assume "s = [] \<or> (\<not> isWhiteSpace (hd s) \<and> \<not> isWhiteSpace (last s))"
  with False have h: "\<not> isWhiteSpace (hd s)" and l: "\<not> isWhiteSpace (last s)" by auto
  from False h have 1: "dropWhile isWhiteSpace s = s" by (cases s) auto
  from False l have 2: "dropWhile isWhiteSpace (rev s) = rev s"
    by (cases "rev s") (auto simp: hd_rev[symmetric])
  show ?thesis by (simp add: trim_def 1 2)
qed

lemma trim_trim [simp]: "trim (trim s) = trim s"
  by (rule trim_fixed) (rule trim_ends)

lemma trim_iff: "trim s = s \<longleftrightarrow> s = [] \<or> (\<not> isWhiteSpace (hd s) \<and> \<not> isWhiteSpace (last s))"
  using trim_ends[of s] trim_fixed[of s] by auto

lemma parseCodeBlock_eq:
  "parseCodeBlock body =
     (let h = takeWhile (\<lambda>u. u \<noteq> LF) body; c = drop (Suc (length h)) body
      in if includesStr h readonlyMarker
         then Code (trim (replace h readonlyMarker [])) True c
         else Code (trim h) False c)"
proof -
  have sh: "shift (splitOn body LF) = (Some (takeWhile (\<lambda>u. u \<noteq> LF) body), tl (splitOn body LF))"
    by (subst (1 2) splitOn_view) (simp add: shift_def)
  have oe: "orEmpty (Some l) = l" for l by (simp add: orEmpty_def)
  show ?thesis
    by (simp add: parseCodeBlock_def sh oe Let_def newline_def join_tl_splitOn)
qed

section \<open>C4: the header rule\<close>

text \<open>
  C4. \<open>parseCodeBlock\<close> splits the body at its first newline: the header line \<open>h\<close>
  is the text before it and the content is everything after it, unchanged; a body without
  a newline is all header line and has the empty content. The segment is read-only
  exactly when the marker stands in the header line; then the language is the header
  line without the first occurrence of the marker (one occurrence, and no more), trimmed,
  and otherwise it is the header line trimmed.
\<close>

theorem parseCodeBlock_header_rule:
  "let h = takeWhile (\<lambda>u. u \<noteq> LF) body; seg = parseCodeBlock body
   in isCode seg
      \<and> content seg = drop (Suc (length h)) body
      \<and> (LF \<in> set body \<longrightarrow> body = h @ [LF] @ content seg)
      \<and> (LF \<notin> set body \<longrightarrow> h = body \<and> content seg = [])
      \<and> (readOnly seg \<longleftrightarrow> (\<exists>p. occurs_at readonlyMarker h p))
      \<and> (\<not> readOnly seg \<longrightarrow> language seg = trim h)
      \<and> (readOnly seg \<longrightarrow>
            (\<exists>u v. h = u @ readonlyMarker @ v
               \<and> (\<forall>q<length u. \<not> occurs_at readonlyMarker h q)
               \<and> language seg = trim (u @ v)))"
proof -
  define h where "h = takeWhile (\<lambda>u. u \<noteq> LF) body"
  define seg where "seg = parseCodeBlock body"
  have seg: "seg = (if includesStr h readonlyMarker
         then Code (trim (replace h readonlyMarker [])) True (drop (Suc (length h)) body)
         else Code (trim h) False (drop (Suc (length h)) body))"
    by (simp add: seg_def h_def parseCodeBlock_eq Let_def)
  have 1: "isCode seg" by (simp add: seg)
  have 2: "content seg = drop (Suc (length h)) body" by (simp add: seg)
  have 3: "body = h @ [LF] @ content seg" if "LF \<in> set body"
  proof -
    from that have "dropWhile (\<lambda>u. u \<noteq> LF) body \<noteq> []" by (simp add: dropWhile_eq_Nil_conv)
    moreover have "hd (dropWhile (\<lambda>u. u \<noteq> LF) body) = LF"
      using hd_dropWhile[OF calculation] by simp
    ultimately obtain r where r: "dropWhile (\<lambda>u. u \<noteq> LF) body = LF # r"
      by (cases "dropWhile (\<lambda>u. u \<noteq> LF) body") auto
    have "content seg = drop 1 (drop (length h) body)" by (simp add: 2)
    also have "drop (length h) body = dropWhile (\<lambda>u. u \<noteq> LF) body"
      unfolding h_def by (rule dropWhile_eq_drop[symmetric])
    finally have "content seg = r" by (simp add: r)
    moreover have "body = h @ dropWhile (\<lambda>u. u \<noteq> LF) body"
      unfolding h_def by simp
    ultimately show ?thesis by (simp add: r)
  qed
  have 4: "h = body \<and> content seg = []" if "LF \<notin> set body"
  proof -
    from that have "h = body" unfolding h_def by (auto simp: takeWhile_eq_all_conv)
    then show ?thesis by (simp add: 2)
  qed
  have 5: "readOnly seg \<longleftrightarrow> (\<exists>p. occurs_at readonlyMarker h p)"
    by (simp add: seg includesStr_iff)
  have 6: "language seg = trim h" if "\<not> readOnly seg"
    using that by (simp add: seg split: if_splits)
  have 7: "\<exists>u v. h = u @ readonlyMarker @ v
               \<and> (\<forall>q<length u. \<not> occurs_at readonlyMarker h q)
               \<and> language seg = trim (u @ v)" if "readOnly seg"
  proof -
    from that have inc: "includesStr h readonlyMarker" by (simp add: seg split: if_splits)
    then obtain p where p: "search readonlyMarker h = Some p" by (auto simp: includesStr_search)
    then have o: "occurs_at readonlyMarker h p" and m: "\<forall>q<p. \<not> occurs_at readonlyMarker h q"
      by (simp_all add: search_Some_iff)
    let ?u = "take p h" and ?v = "drop (p + length readonlyMarker) h"
    from o have pl: "p \<le> length h" by (simp add: occurs_at_def)
    have a: "h = ?u @ readonlyMarker @ ?v" by (rule split_at_occurrence[OF o])
    have b: "\<forall>q<length ?u. \<not> occurs_at readonlyMarker h q" using m pl by simp
    have c: "language seg = trim (?u @ ?v)" using inc by (simp add: seg replace_first[OF p])
    from a b c show ?thesis by blast
  qed
  from 1 2 3 4 5 6 7 show ?thesis
    unfolding Let_def h_def[symmetric] seg_def[symmetric] by blast
qed

lemma header_example:
  "parseCodeBlock (str ''python [readonly]\<newline>x=1'') = Code (str ''python'') True (str ''x=1'')"
  by code_simp

theorem parseCodeBlock_header_rule_witness:
  "LF \<in> set (str ''python [readonly]\<newline>x=1'')
   \<and> str ''python [readonly]\<newline>x=1''
       = takeWhile (\<lambda>u. u \<noteq> LF) (str ''python [readonly]\<newline>x=1'') @ [LF]
         @ content (parseCodeBlock (str ''python [readonly]\<newline>x=1''))
   \<and> readOnly (parseCodeBlock (str ''python [readonly]\<newline>x=1''))
   \<and> (\<exists>u v. takeWhile (\<lambda>u. u \<noteq> LF) (str ''python [readonly]\<newline>x=1'') = u @ readonlyMarker @ v
          \<and> language (parseCodeBlock (str ''python [readonly]\<newline>x=1'')) = trim (u @ v))
   \<and> parseCodeBlock (str ''python [readonly]\<newline>x=1'') = Code (str ''python'') True (str ''x=1'')"
proof -
  let ?b = "str ''python [readonly]\<newline>x=1''"
  have h1: "LF \<in> set ?b" by (simp add: str_def LF_def)
  have h2: "readOnly (parseCodeBlock ?b)" by (simp add: header_example)
  note t = parseCodeBlock_header_rule[of ?b, unfolded Let_def]
  from t h1 have a: "?b = takeWhile (\<lambda>u. u \<noteq> LF) ?b @ [LF] @ content (parseCodeBlock ?b)"
    by blast
  from t h2 have b: "\<exists>u v. takeWhile (\<lambda>u. u \<noteq> LF) ?b = u @ readonlyMarker @ v
          \<and> language (parseCodeBlock ?b) = trim (u @ v)"
    by blast
  from h1 a h2 b header_example show ?thesis by blast
qed

section \<open>C6: an opening delimiter that is never closed\<close>

text \<open>
  C6. When \<open>s\<close> holds an opening delimiter after which no closing delimiter stands,
  the decoder ends in a code block that is never closed, and the first such opening
  delimiter \<open>p0\<close> opens it (every opening delimiter before \<open>p0\<close> has a closing
  delimiter after it): the result is the segments decoded from the text before \<open>p0\<close>,
  followed by the one code segment that the header rule gives for everything after
  \<open>p0\<close>, written out here with the header line, the marker and the content. That
  code segment is the last segment, so no text segment follows it. The string
  \<open>{{{unterminated\<close> decodes to one code segment with empty content, and in
  \<open>a{{{ py [readonly] \nx = 1 \<close> the block that is never closed has the language
  \<open>py\<close>, is read-only and keeps its content untrimmed.
\<close>

theorem parseSegments_unterminated:
  "(occurs_at openDelim s p \<and> (\<forall>q\<ge>p + 3. \<not> occurs_at closeDelim s q) \<longrightarrow>
      (\<exists>p0\<le>p. occurs_at openDelim s p0
         \<and> (\<forall>q\<ge>p0 + 3. \<not> occurs_at closeDelim s q)
         \<and> (\<forall>p'<p0. occurs_at openDelim s p' \<longrightarrow> (\<exists>q\<ge>p' + 3. occurs_at closeDelim s q))
         \<and> (\<exists>before. parseSegments (take p0 s) = Some before
               \<and> parseSegments s = Some (before @ [parseCodeBlock (drop (p0 + 3) s)]))
         \<and> parseCodeBlock (drop (p0 + 3) s) =
             (let h = takeWhile (\<lambda>u. u \<noteq> LF) (drop (p0 + 3) s);
                  c = drop (Suc (length h)) (drop (p0 + 3) s)
              in if includesStr h readonlyMarker
                 then Code (trim (replace h readonlyMarker [])) True c
                 else Code (trim h) False c)))
   \<and> parseSegments (str ''{{{unterminated'') = Some [Code (str ''unterminated'') False []]
   \<and> parseSegments (str ''a{{{ py [readonly] \<newline>x = 1 '')
       = Some [Text (str ''a''), Code (str ''py'') True (str ''x = 1 '')]
   \<and> parseSegments (str ''{{{a{{{b'') = Some [Code (str ''a{{{b'') False []]"
proof (intro conjI impI)
  assume "occurs_at openDelim s p \<and> (\<forall>q\<ge>p + 3. \<not> occurs_at closeDelim s q)"
  then have a: "occurs_at openDelim s p" and b: "\<forall>q\<ge>p + 3. \<not> occurs_at closeDelim s q"
    by blast+
  from segmentsOf_first_unclosed[OF a b] show
    "\<exists>p0\<le>p. occurs_at openDelim s p0
         \<and> (\<forall>q\<ge>p0 + 3. \<not> occurs_at closeDelim s q)
         \<and> (\<forall>p'<p0. occurs_at openDelim s p' \<longrightarrow> (\<exists>q\<ge>p' + 3. occurs_at closeDelim s q))
         \<and> (\<exists>before. parseSegments (take p0 s) = Some before
               \<and> parseSegments s = Some (before @ [parseCodeBlock (drop (p0 + 3) s)]))
         \<and> parseCodeBlock (drop (p0 + 3) s) =
             (let h = takeWhile (\<lambda>u. u \<noteq> LF) (drop (p0 + 3) s);
                  c = drop (Suc (length h)) (drop (p0 + 3) s)
              in if includesStr h readonlyMarker
                 then Code (trim (replace h readonlyMarker [])) True c
                 else Code (trim h) False c)"
    using parseCodeBlock_eq by (simp only: parseSegments_segmentsOf) blast
next
  show "parseSegments (str ''{{{unterminated'') = Some [Code (str ''unterminated'') False []]"
    by code_simp
next
  show "parseSegments (str ''a{{{ py [readonly] \<newline>x = 1 '')
       = Some [Text (str ''a''), Code (str ''py'') True (str ''x = 1 '')]"
    by code_simp
next
  show "parseSegments (str ''{{{a{{{b'') = Some [Code (str ''a{{{b'') False []]"
    by code_simp
qed

lemma unterminated_example_open:
  "occurs_at openDelim (str ''a{{{b}}}c{{{ py [readonly] \<newline>x{{{e'') 29"
  by (simp add: occurs_at_def openDelim_def str_def)

lemma unterminated_example_close:
  "search closeDelim (drop 32 (str ''a{{{b}}}c{{{ py [readonly] \<newline>x{{{e'')) = None"
  by code_simp

lemma unterminated_example_result:
  "parseSegments (str ''a{{{b}}}c{{{ py [readonly] \<newline>x{{{e'')
     = Some [Text (str ''a''), Code (str ''b'') False [], Text (str ''c''),
             Code (str ''py'') True (str ''x{{{e'')]"
  by code_simp

lemma unterminated_example_body:
  "parseCodeBlock (drop (9 + 3) (str ''a{{{b}}}c{{{ py [readonly] \<newline>x{{{e''))
     = Code (str ''py'') True (str ''x{{{e'')"
  by code_simp

lemma unterminated_example_before:
  "parseSegments (take 9 (str ''a{{{b}}}c{{{ py [readonly] \<newline>x{{{e''))
     = Some [Text (str ''a''), Code (str ''b'') False [], Text (str ''c'')]"
  by code_simp

lemma unterminated_example_first:
  "search closeDelim (drop 12 (str ''a{{{b}}}c{{{ py [readonly] \<newline>x{{{e'')) = None
   \<and> search openDelim (drop 10 (take 31 (str ''a{{{b}}}c{{{ py [readonly] \<newline>x{{{e''))) = None
   \<and> search openDelim (drop 2 (take 11 (str ''a{{{b}}}c{{{ py [readonly] \<newline>x{{{e''))) = None
   \<and> search openDelim (str ''a{{{b}}}c{{{ py [readonly] \<newline>x{{{e'') = Some 1
   \<and> search closeDelim (drop 4 (str ''a{{{b}}}c{{{ py [readonly] \<newline>x{{{e'')) = Some 1"
  by code_simp


theorem parseSegments_unterminated_witness:
  "occurs_at openDelim (str ''a{{{b}}}c{{{ py [readonly] \<newline>x{{{e'') 29
   \<and> search closeDelim (drop 32 (str ''a{{{b}}}c{{{ py [readonly] \<newline>x{{{e'')) = None
   \<and> parseSegments (take 9 (str ''a{{{b}}}c{{{ py [readonly] \<newline>x{{{e''))
       = Some [Text (str ''a''), Code (str ''b'') False [], Text (str ''c'')]
   \<and> parseCodeBlock (drop (9 + 3) (str ''a{{{b}}}c{{{ py [readonly] \<newline>x{{{e''))
       = Code (str ''py'') True (str ''x{{{e'')
   \<and> parseSegments (str ''a{{{b}}}c{{{ py [readonly] \<newline>x{{{e'')
       = Some ([Text (str ''a''), Code (str ''b'') False [], Text (str ''c'')]
               @ [Code (str ''py'') True (str ''x{{{e'')])"
proof -
  let ?s = "str ''a{{{b}}}c{{{ py [readonly] \<newline>x{{{e''"
  have len: "length ?s = 33" by (simp add: str_def)
  note f = unterminated_example_first
  have h2: "\<forall>q\<ge>29 + 3. \<not> occurs_at closeDelim ?s q"
    using no_close_from[OF _ unterminated_example_close] len by simp
  have o9: "occurs_at openDelim ?s 9" by (simp add: occurs_at_def openDelim_def str_def)
  have c5: "occurs_at closeDelim ?s 5" by (simp add: occurs_at_def closeDelim_def str_def)
  have n9: "\<forall>q\<ge>9 + 3. \<not> occurs_at closeDelim ?s q"
    using no_close_from[of 12 ?s] f len by simp
  from parseSegments_unterminated[of ?s 29] unterminated_example_open h2
  obtain p0 where o: "occurs_at openDelim ?s p0"
    and u: "\<forall>q\<ge>p0 + 3. \<not> occurs_at closeDelim ?s q"
    and m: "\<forall>p'<p0. occurs_at openDelim ?s p' \<longrightarrow> (\<exists>q\<ge>p' + 3. occurs_at closeDelim ?s q)"
    and r: "\<exists>before. parseSegments (take p0 ?s) = Some before
               \<and> parseSegments ?s = Some (before @ [parseCodeBlock (drop (p0 + 3) ?s)])"
    by blast
  from m o9 n9 have le: "p0 \<le> 9" by (meson not_le)
  from f have "search openDelim ?s = Some 1" by blast
  then have z: "\<not> occurs_at openDelim ?s 0" by (simp add: search_Some_iff)
  have mid: "\<not> occurs_at openDelim ?s q" if "2 \<le> q" "q \<le> 8" for q
  proof
    assume "occurs_at openDelim ?s q"
    with that have "occurs_at openDelim (take 11 ?s) q" by (simp add: occurs_at_take)
    moreover from f have "search openDelim (drop 2 (take 11 ?s)) = None" by blast
    from no_occurrence_from[OF _ this] that len have "\<not> occurs_at openDelim (take 11 ?s) q"
      by simp
    ultimately show False by simp
  qed
  have "p0 \<noteq> 1"
  proof
    assume "p0 = 1"
    with u have "\<not> occurs_at closeDelim ?s 5" by simp
    with c5 show False by simp
  qed
  moreover have "p0 \<noteq> 0"
  proof
    assume "p0 = 0"
    with o z show False by simp
  qed
  moreover from o mid have "\<not> (2 \<le> p0 \<and> p0 \<le> 8)" by blast
  ultimately have p9: "p0 = 9" using le by arith
  from r have "parseSegments ?s
      = Some ([Text (str ''a''), Code (str ''b'') False [], Text (str ''c'')]
               @ [Code (str ''py'') True (str ''x{{{e'')])"
    unfolding p9 unterminated_example_before unterminated_example_body by simp
  with unterminated_example_open unterminated_example_close unterminated_example_before
    unterminated_example_body
  show ?thesis by (intro conjI)
qed

text \<open>
  For an opening delimiter that is not the first one without a closing delimiter, the rest
  of the text after it is not the body: in \<open>{{{a{{{b\<close> no closing delimiter stands
  anywhere, the text after the delimiter at index 4 is \<open>b\<close>, and the one segment
  decoded has the body \<open>a{{{b\<close>.
\<close>

lemma any_unclosed_close: "search closeDelim (str ''{{{a{{{b'') = None"
  by code_simp

lemma any_unclosed_result:
  "parseSegments (str ''{{{a{{{b'') = Some [Code (str ''a{{{b'') False []]"
  by code_simp

lemma any_unclosed_body:
  "parseCodeBlock (drop (4 + 3) (str ''{{{a{{{b'')) = Code (str ''b'') False []"
  by code_simp

theorem parseSegments_unterminated_counterexample:
  "occurs_at openDelim (str ''{{{a{{{b'') 4
   \<and> (\<forall>q. \<not> occurs_at closeDelim (str ''{{{a{{{b'') q)
   \<and> parseCodeBlock (drop (4 + 3) (str ''{{{a{{{b'')) = Code (str ''b'') False []
   \<and> parseSegments (str ''{{{a{{{b'') = Some [Code (str ''a{{{b'') False []]
   \<and> \<not> (\<exists>before. parseSegments (str ''{{{a{{{b'')
                       = Some (before @ [parseCodeBlock (drop (4 + 3) (str ''{{{a{{{b''))]))"
proof -
  let ?s = "str ''{{{a{{{b''"
  have 1: "occurs_at openDelim ?s 4" by (simp add: occurs_at_def openDelim_def str_def)
  have 2: "\<forall>q. \<not> occurs_at closeDelim ?s q"
    using any_unclosed_close by (simp add: search_None_iff)
  have 5: "\<not> (\<exists>before. parseSegments ?s = Some (before @ [parseCodeBlock (drop (4 + 3) ?s)]))"
  proof
    assume "\<exists>before. parseSegments ?s = Some (before @ [parseCodeBlock (drop (4 + 3) ?s)])"
    then obtain before where "parseSegments ?s = Some (before @ [parseCodeBlock (drop (4 + 3) ?s)])"
      ..
    then have "[Code (str ''a{{{b'') False []] = before @ [Code (str ''b'') False []]"
      unfolding any_unclosed_result any_unclosed_body by simp
    then have "last [Code (str ''a{{{b'') False []] = last (before @ [Code (str ''b'') False []])"
      by (rule arg_cong)
    then show False by (simp add: str_def)
  qed
  from 1 2 any_unclosed_body any_unclosed_result 5 show ?thesis by (intro conjI)
qed

section \<open>Patterns of one repeated unit\<close>

lemma renderSegment_Code': "renderSegment (Code l r c) = openDelim @ l @ markerText r @ newline @ c @ closeDelim"
  by (simp add: renderSegment_Code markerText_def)

text \<open>A pattern that repeats one unit cannot straddle the end of a text that does not end in it.\<close>

lemma occurs_at_unit:
  "occurs_at pat s q \<Longrightarrow> \<forall>i<length pat. pat ! i = a \<Longrightarrow> q \<le> j \<Longrightarrow> j < q + length pat \<Longrightarrow> s ! j = a"
proof -
  assume o: "occurs_at pat s q" and c: "\<forall>i<length pat. pat ! i = a" and 1: "q \<le> j" and 2: "j < q + length pat"
  then have "j - q < length pat" by simp
  with o have "s ! (q + (j - q)) = pat ! (j - q)" by (simp add: occurs_at_nth)
  with 1 c \<open>j - q < length pat\<close> show ?thesis by simp
qed

lemma no_straddle:
  assumes c: "\<forall>i<length pat. pat ! i = a"
    and n: "\<forall>q. \<not> occurs_at pat u q"
    and l: "u = [] \<or> last u \<noteq> a"
  shows "\<forall>q<length u. \<not> occurs_at pat (u @ w) q"
proof (intro allI impI notI)
  fix q assume q: "q < length u" and o: "occurs_at pat (u @ w) q"
  show False
  proof (cases "q + length pat \<le> length u")
    case True
    with o have "occurs_at pat u q" by (simp add: occurs_at_append_left)
    with n show False by blast
  next
    case False
    with q have "q \<le> length u - 1" "length u - 1 < q + length pat" by simp_all
    from occurs_at_unit[OF o c this] have "(u @ w) ! (length u - 1) = a" .
    with q have "last u = a" by (cases u rule: rev_cases) (simp_all add: nth_append)
    with l q show False by auto
  qed
qed

lemma search_after:
  assumes "\<forall>i<length pat. pat ! i = a" "\<forall>q. \<not> occurs_at pat u q" "u = [] \<or> last u \<noteq> a"
  shows "search pat (u @ pat @ v) = Some (length u)"
proof -
  have "occurs_at pat (pat @ v) 0" by (simp add: occurs_at_def)
  then have "occurs_at pat (u @ pat @ v) (length u + 0)" by (simp only: occurs_at_append_right)
  with no_straddle[OF assms, of "pat @ v"] show ?thesis by (simp add: search_Some_iff)
qed

lemma occurs_unit_sep:
  assumes c: "\<forall>i<length pat. pat ! i = a" and ne: "pat \<noteq> []"
    and m: "a \<notin> set m" "m \<noteq> []"
    and o: "occurs_at pat (l @ m @ r) q"
  shows "occurs_at pat l q \<or> (length l + length m \<le> q \<and> occurs_at pat r (q - (length l + length m)))"
proof -
  have out: "j < length l \<or> length l + length m \<le> j" if "q \<le> j" "j < q + length pat" for j
  proof (rule ccontr)
    assume "\<not> ?thesis"
    then have j: "length l \<le> j" "j - length l < length m" by auto
    from occurs_at_unit[OF o c that] have "(l @ m @ r) ! j = a" .
    with j have "m ! (j - length l) = a" by (simp add: nth_append)
    with j(2) m(1) show False by (metis nth_mem)
  qed
  from ne have lp: "0 < length pat" by simp
  show ?thesis
  proof (cases "q + length pat \<le> length l")
    case True
    with o show ?thesis by (simp add: occurs_at_append_left)
  next
    case False
    have "length l + length m \<le> q"
    proof (rule ccontr)
      assume nq: "\<not> length l + length m \<le> q"
      let ?j = "max q (length l)"
      have "q \<le> ?j" "?j < q + length pat" using False lp by auto
      from m(2) have "0 < length m" by simp
      with out[OF \<open>q \<le> ?j\<close> \<open>?j < q + length pat\<close>] nq show False
        by (simp add: max_def split: if_splits)
    qed
    then obtain q' where q': "q = length (l @ m) + q'" by (metis le_Suc_ex length_append)
    from o have "occurs_at pat ((l @ m) @ r) (length (l @ m) + q')" by (simp add: q')
    then have "occurs_at pat r q'" by (simp only: occurs_at_append_right)
    with q' \<open>length l + length m \<le> q\<close> show ?thesis by simp
  qed
qed

lemma openDelim_unit: "\<forall>i<length openDelim. openDelim ! i = 0x7B"
  by (simp add: openDelim_nth)

lemma closeDelim_unit: "\<forall>i<length closeDelim. closeDelim ! i = 0x7D"
  by (simp add: closeDelim_nth)

section \<open>Decoding a rendered block\<close>

lemma markerText_True: "markerText True = [0x20] @ readonlyMarker"
  by (simp add: markerText_def readonlyMarker_def str_def)

lemma LF_notin_markerText [simp]: "LF \<notin> set (markerText r)"
  by (simp add: markerText_def str_def LF_def)

lemma rb_notin_markerText [simp]: "0x7D \<notin> set (markerText r)"
  by (simp add: markerText_def str_def)

lemma space_notin_marker: "0x20 \<notin> set readonlyMarker"
  by (simp add: readonlyMarker_def str_def)

lemma isWhiteSpace_space [simp]: "isWhiteSpace 0x20"
  by (simp add: isWhiteSpace_def)

lemma takeWhile_upto: "a \<notin> set x \<Longrightarrow> takeWhile (\<lambda>u. u \<noteq> a) (x @ a # c) = x"
  by (induction x) auto

lemma trim_append_ws:
  assumes "trim l = l" "isWhiteSpace w"
  shows "trim (l @ [w]) = l"
proof (cases "l = []")
  case True
  with assms(2) show ?thesis by (simp add: trim_def)
next
  case False
  with assms(1) have h: "\<not> isWhiteSpace (hd l)" and t: "\<not> isWhiteSpace (last l)"
    by (simp_all add: trim_iff)
  from False h have 1: "dropWhile isWhiteSpace (l @ [w]) = l @ [w]" by (cases l) auto
  from False t have 2: "dropWhile isWhiteSpace (rev l) = rev l"
    by (cases "rev l") (auto simp: hd_rev[symmetric])
  show ?thesis by (simp add: trim_def 1 assms(2) 2)
qed

lemma search_marker_appended:
  assumes "search readonlyMarker l = None"
  shows "search readonlyMarker (l @ [0x20] @ readonlyMarker) = Some (Suc (length l))"
proof -
  let ?h = "l @ [0x20] @ readonlyMarker"
  have here: "occurs_at readonlyMarker ?h (Suc (length l))"
    using occurs_at_append_right[of readonlyMarker "l @ [0x20]" "readonlyMarker" 0]
    by (simp add: occurs_at_def)
  have "\<not> occurs_at readonlyMarker ?h q" if q: "q < Suc (length l)" for q
  proof
    assume o: "occurs_at readonlyMarker ?h q"
    show False
    proof (cases "q + length readonlyMarker \<le> length l")
      case True
      with o have "occurs_at readonlyMarker l q" by (simp add: occurs_at_append_left)
      with assms show False by (simp add: search_None_iff)
    next
      case False
      with q have i: "length l - q < length readonlyMarker" and ql: "q \<le> length l" by simp_all
      from o i have "?h ! (q + (length l - q)) = readonlyMarker ! (length l - q)"
        by (simp add: occurs_at_nth)
      with ql have "readonlyMarker ! (length l - q) = 0x20" by (simp add: nth_append)
      with i space_notin_marker show False by (metis nth_mem)
    qed
  qed
  with here show ?thesis by (simp add: search_Some_iff)
qed

lemma parseCodeBlock_split:
  assumes "LF \<notin> set h"
  shows "parseCodeBlock (h @ newline @ c) =
     (if includesStr h readonlyMarker
      then Code (trim (replace h readonlyMarker [])) True c
      else Code (trim h) False c)"
proof -
  have t: "takeWhile (\<lambda>u. u \<noteq> LF) (h @ newline @ c) = h"
    using takeWhile_upto[OF assms, of c] by (simp add: newline_def)
  have d: "drop (Suc (length h)) (h @ newline @ c) = c"
    by (simp add: newline_def)
  show ?thesis
    by (simp only: parseCodeBlock_eq[of "h @ newline @ c"] t d Let_def)
qed

lemma parseCodeBlock_canonical:
  assumes "wfHeader l"
  shows "parseCodeBlock (l @ markerText r @ newline @ c) = Code l r c"
proof -
  from assms have lf: "LF \<notin> set l" and tr: "trim l = l" and nm: "search readonlyMarker l = None"
    by (simp_all add: wfHeader_def)
  let ?h = "l @ markerText r"
  have "LF \<notin> set ?h" using lf by simp
  note p = parseCodeBlock_split[OF this, of c]
  show ?thesis
  proof (cases r)
    case False
    then have hh: "?h = l" by (simp add: markerText_def)
    have "\<not> includesStr l readonlyMarker" using nm by (simp add: includesStr_search)
    with p tr False show ?thesis by (simp add: markerText_def)
  next
    case True
    then have hh: "?h = l @ [0x20] @ readonlyMarker" by (simp add: markerText_True)
    note s = search_marker_appended[OF nm]
    have "replace (l @ [0x20] @ readonlyMarker) readonlyMarker [] = l @ [0x20]"
      by (subst replace_first[OF s]) simp
    then have rp: "replace ?h readonlyMarker [] = l @ [0x20]" by (simp only: hh)
    have "includesStr (l @ [0x20] @ readonlyMarker) readonlyMarker"
      by (simp only: includesStr_search s) simp
    then have inc: "includesStr ?h readonlyMarker" by (simp only: hh)
    have "parseCodeBlock (?h @ newline @ c) = Code (trim (l @ [0x20])) True c"
      by (simp only: p inc rp if_True)
    with True show ?thesis by (simp add: trim_append_ws[OF tr])
  qed
qed

lemma search_open_after:
  "\<forall>q. \<not> occurs_at openDelim t q \<Longrightarrow> t = [] \<or> last t \<noteq> 0x7B \<Longrightarrow>
   search openDelim (t @ openDelim @ w) = Some (length t)"
  by (rule search_after[OF openDelim_unit])

lemma search_open_here: "search openDelim (openDelim @ w) = Some 0"
  using search_open_after[of "[]" w] by (simp add: occurs_at_def)

lemma segmentsOf_text_prefix:
  assumes "\<forall>q. \<not> occurs_at openDelim t q" "t = [] \<or> last t \<noteq> 0x7B"
  shows "segmentsOf (t @ openDelim @ w) = textSeg t @ segmentsOf (openDelim @ w)"
proof -
  note a = search_open_after[OF assms, of w]
  note b = search_open_here[of w]
  have d1: "drop (length t + 3) (t @ openDelim @ w) = w" by simp
  have d2: "drop (0 + 3) (openDelim @ w) = w" by simp
  have e: "textSeg [] = []" by (simp add: textSeg_def)
  show ?thesis
  proof (cases "search closeDelim w")
    case None
    have n1: "search closeDelim (drop (length t + 3) (t @ openDelim @ w)) = None"
      and n2: "search closeDelim (drop (0 + 3) (openDelim @ w)) = None"
      using None by (simp_all only: d1 d2)
    from segmentsOf_open[OF a n1] segmentsOf_open[OF b n2]
    show ?thesis by (simp add: e)
  next
    case (Some q)
    have n1: "search closeDelim (drop (length t + 3) (t @ openDelim @ w)) = Some q"
      and n2: "search closeDelim (drop (0 + 3) (openDelim @ w)) = Some q"
      using Some by (simp_all only: d1 d2)
    from segmentsOf_closed[OF a n1] segmentsOf_closed[OF b n2]
    show ?thesis by (simp add: e)
  qed
qed

lemma search_close_block:
  assumes l: "search closeDelim l = None" and c: "search closeDelim c = None"
    and e: "c = [] \<or> last c \<noteq> 0x7D"
  shows "search closeDelim ((l @ markerText r @ newline @ c) @ closeDelim @ v)
           = Some (length (l @ markerText r @ newline @ c))"
proof (rule search_after[OF closeDelim_unit])
  show "\<forall>q. \<not> occurs_at closeDelim (l @ markerText r @ newline @ c) q"
  proof (intro allI notI)
    fix q assume o: "occurs_at closeDelim (l @ markerText r @ newline @ c) q"
    have m: "0x7D \<notin> set (markerText r @ newline)" "markerText r @ newline \<noteq> []"
      by (simp_all add: newline_def LF_def)
    from o have "occurs_at closeDelim (l @ (markerText r @ newline) @ c) q" by simp
    from occurs_unit_sep[OF closeDelim_unit closeDelim_ne m this] l c
    show False by (auto simp: search_None_iff)
  qed
  show "l @ markerText r @ newline @ c = [] \<or> last (l @ markerText r @ newline @ c) \<noteq> 0x7D"
    using e by (auto simp: newline_def LF_def)
qed

lemma segmentsOf_block:
  assumes "wfHeader l" "search closeDelim l = None" "search closeDelim c = None"
    "c = [] \<or> last c \<noteq> 0x7D"
  shows "segmentsOf (openDelim @ l @ markerText r @ newline @ c @ closeDelim @ v)
           = Code l r c # segmentsOf v"
proof -
  let ?b = "l @ markerText r @ newline @ c"
  have a: "search openDelim (openDelim @ ?b @ closeDelim @ v) = Some 0" by (rule search_open_here)
  have d: "drop (0 + 3) (openDelim @ ?b @ closeDelim @ v) = ?b @ closeDelim @ v" by simp
  have s: "search closeDelim (drop (0 + 3) (openDelim @ ?b @ closeDelim @ v)) = Some (length ?b)"
    using search_close_block[OF assms(2-4), of r v] by (simp only: d)
  from segmentsOf_closed[OF a s]
  have "segmentsOf (openDelim @ ?b @ closeDelim @ v)
          = textSeg [] @ parseCodeBlock ?b # segmentsOf v"
    by (simp del: append_assoc)
  then show ?thesis
    by (simp add: textSeg_def parseCodeBlock_canonical[OF assms(1)])
qed

lemma segmentsOf_wellFormed: "wellFormed d \<Longrightarrow> segmentsOf (buildRawText d) = d"
proof (induction d rule: wellFormed.induct)
  case 1
  show ?case by simp
next
  case (2 t rest)
  from "2.prems" have ne: "t \<noteq> []" and pl: "search openDelim t = None" and wr: "wellFormed rest"
    by simp_all
  show ?case
  proof (cases rest)
    case Nil
    with ne pl show ?thesis by (simp add: segmentsOf_plain)
  next
    case (Cons x rest')
    show ?thesis
    proof (cases x)
      case (Text u)
      with Cons "2.prems" show ?thesis by simp
    next
      case (Code l r c)
      with Cons "2.prems" have lt: "last t \<noteq> 0x7B" by simp
      from pl have no: "\<forall>q. \<not> occurs_at openDelim t q" by (simp add: search_None_iff)
      let ?w = "l @ markerText r @ newline @ c @ closeDelim @ buildRawText rest'"
      have enc: "buildRawText rest = openDelim @ ?w"
        by (simp add: Cons Code renderSegment_Code')
      have "segmentsOf (t @ openDelim @ ?w) = textSeg t @ segmentsOf (openDelim @ ?w)"
        using no lt by (intro segmentsOf_text_prefix) simp_all
      also have "segmentsOf (openDelim @ ?w) = rest"
        using "2.IH"[OF wr] by (simp only: enc)
      finally show ?thesis using ne by (simp add: enc textSeg_def)
    qed
  qed
next
  case (3 l r c rest)
  from "3.prems" have h: "wfHeader l" "search closeDelim l = None" "search closeDelim c = None"
    "c = [] \<or> last c \<noteq> 0x7D" and wr: "wellFormed rest" by simp_all
  from segmentsOf_block[OF h, of r "buildRawText rest"] "3.IH"[OF wr]
  show ?case by (simp add: renderSegment_Code')
qed

section \<open>What a decoded block looks like\<close>

lemma buildRawText_textSeg [simp]: "buildRawText (textSeg t) = t"
  by (simp add: textSeg_def)

lemma set_trim: "set (trim x) \<subseteq> set x"
proof
  fix u assume "u \<in> set (trim x)"
  then have "u \<in> set (dropWhile isWhiteSpace (rev (dropWhile isWhiteSpace x)))"
    by (simp add: trim_def)
  then have "u \<in> set (rev (dropWhile isWhiteSpace x))" by (rule set_dropWhileD)
  then have "u \<in> set (dropWhile isWhiteSpace x)" by simp
  then show "u \<in> set x" by (rule set_dropWhileD)
qed

lemma set_replace_empty: "set (replace h pat []) \<subseteq> set h"
  by (cases "indexOf h pat 0") (auto simp: replace_def dest: in_set_takeD in_set_dropD)

lemma parseCodeBlock_language:
  "LF \<notin> set (language (parseCodeBlock b)) \<and> trim (language (parseCodeBlock b)) = language (parseCodeBlock b)"
proof -
  let ?h = "takeWhile (\<lambda>u. u \<noteq> LF) b"
  have h: "LF \<notin> set ?h" by (auto dest: set_takeWhileD)
  with set_trim[of ?h] set_trim[of "replace ?h readonlyMarker []"] set_replace_empty[of ?h readonlyMarker]
  show ?thesis by (auto simp: parseCodeBlock_eq Let_def)
qed

lemma parseCodeBlock_content:
  "content (parseCodeBlock b) = drop (Suc (length (takeWhile (\<lambda>u. u \<noteq> LF) b))) b"
  by (simp add: parseCodeBlock_eq Let_def)

lemma search_None_drop:
  assumes "search pat s = None" "pat \<noteq> []"
  shows "search pat (drop k s) = None"
proof (cases "k \<le> length s")
  case True
  with assms(1) show ?thesis by (simp add: search_None_iff occurs_at_drop)
next
  case False
  with assms(2) show ?thesis by (simp add: search_None_iff occurs_at_def)
qed

lemma last_drop_keep: "drop k s = [] \<or> last (drop k s) = last s"
  by (cases "k < length s") (simp_all add: last_drop)

lemma before_first_unit:
  assumes u: "\<forall>i<length pat. pat ! i = a" and ne: "pat \<noteq> []" and s: "search pat s = Some p"
  shows "take p s = [] \<or> last (take p s) \<noteq> a"
proof (rule ccontr)
  assume "\<not> ?thesis"
  then have t: "take p s \<noteq> []" and l: "last (take p s) = a" by simp_all
  from s have o: "occurs_at pat s p" and m: "\<forall>q<p. \<not> occurs_at pat s q"
    by (simp_all add: search_Some_iff)
  from t have p0: "0 < p" by (cases p) auto
  from o have pl: "p + length pat \<le> length s" by (simp add: occurs_at_def)
  with p0 have "length (take p s) = p" by simp
  with t l have a1: "s ! (p - 1) = a"
    by (metis last_conv_nth nth_take diff_less p0 zero_less_one)
  have "occurs_at pat s (p - 1)"
    unfolding occurs_at_nth
  proof (intro conjI allI impI)
    show "p - 1 + length pat \<le> length s" using pl by simp
    fix i assume i: "i < length pat"
    show "s ! (p - 1 + i) = pat ! i"
    proof (cases i)
      case 0
      with a1 u i show ?thesis by simp
    next
      case (Suc j)
      with i have "j < length pat" by simp
      with o have "s ! (p + j) = pat ! j" by (simp add: occurs_at_nth)
      with u i \<open>j < length pat\<close> Suc p0 show ?thesis by simp
    qed
  qed
  with m p0 show False by simp
qed

lemma closed_body:
  assumes "search closeDelim B = Some q"
  shows "search closeDelim (take q B) = None" "take q B = [] \<or> last (take q B) \<noteq> 0x7D"
  using search_None_take[OF assms closeDelim_ne]
    before_first_unit[OF closeDelim_unit closeDelim_ne assms] by simp_all

lemma text_before_open:
  assumes "search openDelim s = Some p"
  shows "\<forall>q. \<not> occurs_at openDelim (take p s) q" "take p s = [] \<or> last (take p s) \<noteq> 0x7B"
  using search_None_take[OF assms openDelim_ne]
    before_first_unit[OF openDelim_unit openDelim_ne assms] by (simp_all add: search_None_iff)

lemma closeDelim_replicate: "closeDelim = replicate 3 0x7D"
  by (simp add: closeDelim_def str_def numeral_3_eq_3)

lemma segmentsOf_only_close:
  assumes "set k \<subseteq> {0x7D}"
  shows "segmentsOf k = textSeg k"
proof (rule segmentsOf_no_open)
  have "\<not> occurs_at openDelim k q" for q
  proof
    assume o: "occurs_at openDelim k q"
    then have "q < length k" by (simp add: occurs_at_def)
    moreover from occurs_open_nth[OF o, of q] have "k ! q = 0x7B" by simp
    ultimately have "0x7B \<in> set k" by (metis nth_mem)
    with assms show False by auto
  qed
  then show "search openDelim k = None" by (simp add: search_None_iff)
qed

lemma encode_decode_last_block:
  assumes h: "wfHeader l" "search closeDelim l = None" and c: "search closeDelim c = None"
  shows "buildRawText (segmentsOf (openDelim @ l @ markerText r @ newline @ c @ closeDelim))
           = openDelim @ l @ markerText r @ newline @ c @ closeDelim"
proof -
  define k where "k = rev (takeWhile (\<lambda>u. u = 0x7D) (rev c))"
  define c0 where "c0 = rev (dropWhile (\<lambda>u. u = 0x7D) (rev c))"
  have cc: "c = c0 @ k"
  proof -
    have "c0 @ k = rev (takeWhile (\<lambda>u. u = 0x7D) (rev c) @ dropWhile (\<lambda>u. u = 0x7D) (rev c))"
      unfolding c0_def k_def by (simp only: rev_append)
    also have "\<dots> = rev (rev c)" by (simp only: takeWhile_dropWhile_id)
    finally show ?thesis by simp
  qed
  have ks: "set k \<subseteq> {0x7D}" by (auto simp: k_def dest: set_takeWhileD)
  then have kr: "k = replicate (length k) 0x7D"
    by (intro replicate_length_same[symmetric]) auto
  have comm: "k @ closeDelim = closeDelim @ k"
  proof -
    have "k @ closeDelim = replicate (length k + 3) 0x7D"
      by (subst kr) (simp add: closeDelim_replicate replicate_add del: replicate_Suc)
    also have "\<dots> = replicate (3 + length k) 0x7D" by (simp add: ac_simps)
    also have "\<dots> = closeDelim @ k"
      by (subst (2) kr) (simp add: closeDelim_replicate replicate_add del: replicate_Suc)
    finally show ?thesis .
  qed
  have e0: "c0 = [] \<or> last c0 \<noteq> 0x7D"
  proof (cases "dropWhile (\<lambda>u. u = 0x7D) (rev c) = []")
    case True
    then show ?thesis by (simp only: c0_def rev.simps) simp
  next
    case False
    from hd_dropWhile[OF this] False show ?thesis by (simp add: c0_def last_rev)
  qed
  have n0: "search closeDelim c0 = None"
  proof -
    have "\<not> occurs_at closeDelim c0 q" for q
    proof
      assume o: "occurs_at closeDelim c0 q"
      then have "q + length closeDelim \<le> length c0" by (simp add: occurs_at_def)
      with o have "occurs_at closeDelim (c0 @ k) q" by (simp add: occurs_at_append_left)
      with c show False by (simp add: search_None_iff cc)
    qed
    then show ?thesis by (simp add: search_None_iff)
  qed
  have "openDelim @ l @ markerText r @ newline @ c @ closeDelim
          = openDelim @ l @ markerText r @ newline @ c0 @ closeDelim @ k"
    using comm by (simp add: cc)
  moreover have "buildRawText (segmentsOf (openDelim @ l @ markerText r @ newline @ c0 @ closeDelim @ k))
          = openDelim @ l @ markerText r @ newline @ c0 @ closeDelim @ k"
    by (simp add: segmentsOf_block[OF h n0 e0] segmentsOf_only_close[OF ks] renderSegment_Code')
  ultimately show ?thesis by simp
qed

lemma encode_decode_twice:
  "\<forall>seg \<in> set (segmentsOf s). plainLanguage seg \<Longrightarrow>
   buildRawText (segmentsOf (buildRawText (segmentsOf s))) = buildRawText (segmentsOf s)"
proof (induction s rule: segmentsOf.induct)
  case (1 s)
  show ?case
  proof (cases "s = []")
    case True
    then show ?thesis by simp
  next
    case ne: False
    show ?thesis
    proof (cases "search openDelim s")
      case None
      with ne show ?thesis by (simp add: segmentsOf_plain)
    next
      case (Some p)
      note op = Some
      let ?t = "take p s" and ?B = "drop (p + 3) s"
      note tf = text_before_open[OF op]
      show ?thesis
      proof (cases "search closeDelim ?B")
        case None
        note so = segmentsOf_open[OF op None]
        obtain l r c where pc: "parseCodeBlock ?B = Code l r c"
          using isCode_parseCodeBlock[of ?B] by (cases "parseCodeBlock ?B") auto
        from "1.prems" have "plainLanguage (Code l r c)" by (simp add: so pc)
        then have pl: "search readonlyMarker l = None" "search closeDelim l = None"
          by (simp_all add: plainLanguage_def)
        from parseCodeBlock_language[of ?B] pl(1) have wh: "wfHeader l"
          by (simp add: pc wfHeader_def)
        from parseCodeBlock_content[of ?B]
        have ce: "c = drop (Suc (length (takeWhile (\<lambda>u. u \<noteq> LF) ?B))) ?B"
          by (simp only: pc segment.sel)
        have cn: "search closeDelim c = None"
          unfolding ce by (rule search_None_drop[OF None closeDelim_ne])
        let ?w = "l @ markerText r @ newline @ c @ closeDelim"
        have enc: "buildRawText (segmentsOf s) = ?t @ openDelim @ ?w"
          by (simp add: so pc renderSegment_Code')
        have "buildRawText (segmentsOf (?t @ openDelim @ ?w))
                = ?t @ buildRawText (segmentsOf (openDelim @ ?w))"
          by (simp add: segmentsOf_text_prefix[OF tf])
        also have "\<dots> = ?t @ openDelim @ ?w"
          by (simp only: encode_decode_last_block[OF wh pl(2) cn])
        finally show ?thesis by (simp only: enc)
      next
        case (Some q)
        note sc = segmentsOf_closed[OF op Some]
        let ?b = "take q ?B" and ?rest = "drop (q + 3) ?B"
        note bf = closed_body[OF Some]
        obtain l r c where pc: "parseCodeBlock ?b = Code l r c"
          using isCode_parseCodeBlock[of ?b] by (cases "parseCodeBlock ?b") auto
        from "1.prems" have "plainLanguage (Code l r c)" by (simp add: sc pc)
        then have pl: "search readonlyMarker l = None" "search closeDelim l = None"
          by (simp_all add: plainLanguage_def)
        from parseCodeBlock_language[of ?b] pl(1) have wh: "wfHeader l"
          by (simp add: pc wfHeader_def)
        from parseCodeBlock_content[of ?b]
        have ce: "c = drop (Suc (length (takeWhile (\<lambda>u. u \<noteq> LF) ?b))) ?b"
          by (simp only: pc segment.sel)
        have cn: "search closeDelim c = None"
          unfolding ce by (rule search_None_drop[OF bf(1) closeDelim_ne])
        have cl: "c = [] \<or> last c \<noteq> 0x7D"
        proof (cases "c = []")
          case True
          then show ?thesis ..
        next
          case False
          with last_drop_keep[of "Suc (length (takeWhile (\<lambda>u. u \<noteq> LF) ?b))" ?b]
          have lc: "last c = last ?b" by (simp only: ce[symmetric]) simp
          from False have "?b \<noteq> []" by (subst (asm) ce) auto
          with bf(2) lc show ?thesis by simp
        qed
        from "1.prems" have "\<forall>seg \<in> set (segmentsOf ?rest). plainLanguage seg"
          by (simp add: sc)
        note IH = "1.IH"[OF ne op refl Some this]
        let ?e = "buildRawText (segmentsOf ?rest)"
        let ?w = "l @ markerText r @ newline @ c @ closeDelim @ ?e"
        have enc: "buildRawText (segmentsOf s) = ?t @ openDelim @ ?w"
          by (simp add: sc pc renderSegment_Code')
        have "buildRawText (segmentsOf (?t @ openDelim @ ?w))
                = ?t @ buildRawText (segmentsOf (openDelim @ ?w))"
          by (simp add: segmentsOf_text_prefix[OF tf])
        also have "\<dots> = ?t @ openDelim @ l @ markerText r @ newline @ c @ closeDelim
                         @ buildRawText (segmentsOf ?e)"
          by (simp add: segmentsOf_block[OF wh pl(2) cn cl] renderSegment_Code')
        also have "\<dots> = ?t @ openDelim @ ?w" by (simp only: IH)
        finally show ?thesis by (simp only: enc)
      qed
    qed
  qed
qed

section \<open>C1: decoding the encoding of a document\<close>

text \<open>
  C1. For every document \<open>d\<close> that is \<open>wellFormed\<close> (each text
  segment not empty, without opening delimiter, not followed by a text segment and not
  ending in an opening brace before a code segment; each language without newline, without
  leading or trailing whitespace, without the marker and without closing delimiter; each
  content without closing delimiter and not ending in a closing brace), decoding the
  encoding of \<open>d\<close> gives \<open>d\<close> back, field for field.
\<close>

theorem decode_encode_wellFormed:
  "wellFormed d \<Longrightarrow> parseSegments (buildRawText d) = Some d"
  by (simp add: parseSegments_segmentsOf segmentsOf_wellFormed)

lemma wellFormed_example:
  "wellFormed [Text (str ''abc''), Code (str ''python'') True (str ''print(1)''), Text (str ''def'')]"
  by code_simp

theorem decode_encode_wellFormed_witness:
  "wellFormed [Text (str ''abc''), Code (str ''python'') True (str ''print(1)''), Text (str ''def'')]
   \<and> buildRawText [Text (str ''abc''), Code (str ''python'') True (str ''print(1)''), Text (str ''def'')]
       = str ''abc{{{python [readonly]\<newline>print(1)}}}def''
   \<and> parseSegments (str ''abc{{{python [readonly]\<newline>print(1)}}}def'')
       = Some [Text (str ''abc''), Code (str ''python'') True (str ''print(1)''), Text (str ''def'')]"
proof -
  let ?d = "[Text (str ''abc''), Code (str ''python'') True (str ''print(1)''), Text (str ''def'')]"
  have e: "buildRawText ?d = str ''abc{{{python [readonly]\<newline>print(1)}}}def''"
    by (simp add: renderSegment_Code openDelim_def closeDelim_def newline_def LF_def str_def)
  from decode_encode_wellFormed[OF wellFormed_example] e wellFormed_example
  show ?thesis by simp
qed

text \<open>
  With well-formedness as the spec words it, the round trip fails: two text segments side
  by side come back as one, a language with a leading space comes back trimmed, and the
  document decoded from \<open>{{{[readonly]x [readonly]\n}}}\<close>, whose language still
  holds a marker, comes back with one space more in its language.
\<close>

lemma merged_text_open: "search openDelim (str ''ab'') = None"
  by code_simp

lemma merged_text_result:
  "parseSegments (buildRawText [Text (str ''a''), Text (str ''b'')]) = Some [Text (str ''ab'')]"
  by code_simp

lemma trimmed_language_open: "search openDelim (drop 1 (str ''{{{ js\<newline>x}}}'')) = None"
  by code_simp

lemma trimmed_language_result:
  "parseSegments (buildRawText [Code (str '' js'') False (str ''x'')])
     = Some [Code (str ''js'') False (str ''x'')]"
  by code_simp

lemma second_marker_decoded:
  "parseSegments (str ''{{{[readonly]x [readonly]\<newline>}}}'')
     = Some [Code (str ''x [readonly]'') True []]"
  by code_simp

lemma second_marker_open:
  "search openDelim (drop 1 (str ''{{{x [readonly] [readonly]\<newline>}}}'')) = None"
  by code_simp

lemma second_marker_result:
  "parseSegments (buildRawText [Code (str ''x [readonly]'') True []])
     = Some [Code (str ''x  [readonly]'') True []]"
  by code_simp

theorem decode_encode_counterexample:
  "specWellFormed [Text (str ''a''), Text (str ''b'')]
   \<and> parseSegments (buildRawText [Text (str ''a''), Text (str ''b'')]) = Some [Text (str ''ab'')]
   \<and> parseSegments (buildRawText [Text (str ''a''), Text (str ''b'')])
       \<noteq> Some [Text (str ''a''), Text (str ''b'')]
   \<and> specWellFormed [Code (str '' js'') False (str ''x'')]
   \<and> parseSegments (buildRawText [Code (str '' js'') False (str ''x'')])
       = Some [Code (str ''js'') False (str ''x'')]
   \<and> parseSegments (buildRawText [Code (str '' js'') False (str ''x'')])
       \<noteq> Some [Code (str '' js'') False (str ''x'')]
   \<and> parseSegments (str ''{{{[readonly]x [readonly]\<newline>}}}'')
       = Some [Code (str ''x [readonly]'') True []]
   \<and> specWellFormed [Code (str ''x [readonly]'') True []]
   \<and> parseSegments (buildRawText [Code (str ''x [readonly]'') True []])
       = Some [Code (str ''x  [readonly]'') True []]
   \<and> parseSegments (buildRawText [Code (str ''x [readonly]'') True []])
       \<noteq> Some [Code (str ''x [readonly]'') True []]"
proof -
  have e1: "buildRawText [Text (str ''a''), Text (str ''b'')] = str ''ab''"
    by (simp add: str_def)
  have 1: "specWellFormed [Text (str ''a''), Text (str ''b'')]"
    unfolding specWellFormed_def e1 using merged_text_open by (simp add: search_None_iff)
  have 2: "parseSegments (buildRawText [Text (str ''a''), Text (str ''b'')])
       \<noteq> Some [Text (str ''a''), Text (str ''b'')]"
    unfolding merged_text_result by simp
  have e2: "buildRawText [Code (str '' js'') False (str ''x'')] = str ''{{{ js\<newline>x}}}''"
    by (simp add: renderSegment_Code openDelim_def closeDelim_def newline_def LF_def str_def)
  have len: "1 \<le> length (str ''{{{ js\<newline>x}}}'')" by (simp add: str_def)
  have c8: "occurs_at closeDelim (str ''{{{ js\<newline>x}}}'') 8"
    by (simp add: occurs_at_def closeDelim_def str_def)
  have "\<exists>q. p + 3 \<le> q \<and> occurs_at closeDelim (str ''{{{ js\<newline>x}}}'') q"
    if "occurs_at openDelim (str ''{{{ js\<newline>x}}}'') p" for p
  proof -
    from no_occurrence_from[OF len trimmed_language_open] that have "\<not> 1 \<le> p"
      by blast
    then have p0: "p = 0" by simp
    have "0 + 3 \<le> (8::nat)" by simp
    with c8 show ?thesis unfolding p0 by (intro exI[of _ 8] conjI)
  qed
  then have 3: "specWellFormed [Code (str '' js'') False (str ''x'')]"
    unfolding specWellFormed_def e2 by (simp add: newline_def)
  have 4: "parseSegments (buildRawText [Code (str '' js'') False (str ''x'')])
       \<noteq> Some [Code (str '' js'') False (str ''x'')]"
    unfolding trimmed_language_result by (simp add: str_def)
  have e3: "buildRawText [Code (str ''x [readonly]'') True []]
              = str ''{{{x [readonly] [readonly]\<newline>}}}''"
    by (simp add: renderSegment_Code openDelim_def closeDelim_def newline_def LF_def str_def)
  have len3: "1 \<le> length (str ''{{{x [readonly] [readonly]\<newline>}}}'')" by (simp add: str_def)
  have c27: "occurs_at closeDelim (str ''{{{x [readonly] [readonly]\<newline>}}}'') 27"
    by (simp add: occurs_at_def closeDelim_def str_def)
  have "\<exists>q. p + 3 \<le> q \<and> occurs_at closeDelim (str ''{{{x [readonly] [readonly]\<newline>}}}'') q"
    if "occurs_at openDelim (str ''{{{x [readonly] [readonly]\<newline>}}}'') p" for p
  proof -
    from no_occurrence_from[OF len3 second_marker_open] that have "\<not> 1 \<le> p"
      by blast
    then have p0: "p = 0" by simp
    have "0 + 3 \<le> (27::nat)" by simp
    with c27 show ?thesis unfolding p0 by (intro exI[of _ 27] conjI)
  qed
  then have 5: "specWellFormed [Code (str ''x [readonly]'') True []]"
    unfolding specWellFormed_def e3 by (simp add: newline_def)
  have 6: "parseSegments (buildRawText [Code (str ''x [readonly]'') True []])
       \<noteq> Some [Code (str ''x [readonly]'') True []]"
    unfolding second_marker_result by (simp add: str_def)
  from 1 merged_text_result 2 3 trimmed_language_result 4
    second_marker_decoded 5 second_marker_result 6
  show ?thesis by (intro conjI)
qed

section \<open>C2: encoding after decoding, twice\<close>

text \<open>
  C2. When no code segment decoded from \<open>s\<close> has a language in which the
  marker or the closing delimiter stands, the text \<open>t\<close> that encoding after decoding
  gives for \<open>s\<close> is a fixpoint: encoding after decoding \<open>t\<close> gives \<open>t\<close>.
\<close>

theorem enhancedRawText_fixpoint:
  "parseSegments s = Some d \<Longrightarrow>
   \<forall>seg \<in> set d. isCode seg \<longrightarrow>
     (\<forall>p. \<not> occurs_at readonlyMarker (language seg) p)
     \<and> (\<forall>p. \<not> occurs_at closeDelim (language seg) p) \<Longrightarrow>
   enhancedRawText s = Some (buildRawText d)
   \<and> enhancedRawText (buildRawText d) = Some (buildRawText d)"
proof -
  assume p: "parseSegments s = Some d"
    and l: "\<forall>seg \<in> set d. isCode seg \<longrightarrow>
     (\<forall>p. \<not> occurs_at readonlyMarker (language seg) p)
     \<and> (\<forall>p. \<not> occurs_at closeDelim (language seg) p)"
  from p have d: "d = segmentsOf s" by (simp add: parseSegments_segmentsOf)
  from l have "\<forall>seg \<in> set (segmentsOf s). plainLanguage seg"
    by (simp add: d plainLanguage_def search_None_iff)
  from encode_decode_twice[OF this] show ?thesis
    by (simp add: enhancedRawText_def parseSegments_segmentsOf d)
qed

lemma fixpoint_example_parse:
  "parseSegments (str ''abc{{{ python [readonly] \<newline>x=1}}}def{{{js\<newline>y}}'')
     = Some [Text (str ''abc''), Code (str ''python'') True (str ''x=1''), Text (str ''def''),
             Code (str ''js'') False (str ''y}}'')]"
  by code_simp

lemma fixpoint_example_languages:
  "search readonlyMarker (str ''python'') = None \<and> search closeDelim (str ''python'') = None
   \<and> search readonlyMarker (str ''js'') = None \<and> search closeDelim (str ''js'') = None"
  by code_simp

theorem enhancedRawText_fixpoint_witness:
  "parseSegments (str ''abc{{{ python [readonly] \<newline>x=1}}}def{{{js\<newline>y}}'')
     = Some [Text (str ''abc''), Code (str ''python'') True (str ''x=1''), Text (str ''def''),
             Code (str ''js'') False (str ''y}}'')]
   \<and> enhancedRawText (str ''abc{{{ python [readonly] \<newline>x=1}}}def{{{js\<newline>y}}'')
       = Some (str ''abc{{{python [readonly]\<newline>x=1}}}def{{{js\<newline>y}}}}}'')
   \<and> enhancedRawText (str ''abc{{{python [readonly]\<newline>x=1}}}def{{{js\<newline>y}}}}}'')
       = Some (str ''abc{{{python [readonly]\<newline>x=1}}}def{{{js\<newline>y}}}}}'')"
proof -
  let ?d = "[Text (str ''abc''), Code (str ''python'') True (str ''x=1''), Text (str ''def''),
             Code (str ''js'') False (str ''y}}'')]"
  have h: "\<forall>seg \<in> set ?d. isCode seg \<longrightarrow>
     (\<forall>p. \<not> occurs_at readonlyMarker (language seg) p)
     \<and> (\<forall>p. \<not> occurs_at closeDelim (language seg) p)"
    using fixpoint_example_languages by (simp add: search_None_iff)
  have e: "buildRawText ?d = str ''abc{{{python [readonly]\<newline>x=1}}}def{{{js\<newline>y}}}}}''"
    by (simp add: renderSegment_Code openDelim_def closeDelim_def newline_def LF_def str_def)
  from enhancedRawText_fixpoint[OF fixpoint_example_parse h] fixpoint_example_parse
  show ?thesis by (simp only: e)
qed

text \<open>
  Without the condition the fixpoint fails: a header line with two markers keeps one in
  the language and gains a space at each round, and removing the marker from
  \<open>}}[readonly]}\<close> leaves a closing delimiter in the language.
\<close>

theorem enhancedRawText_counterexample:
  "enhancedRawText (str ''{{{[readonly]x [readonly]\<newline>}}}'')
     = Some (str ''{{{x [readonly] [readonly]\<newline>}}}'')
   \<and> enhancedRawText (str ''{{{x [readonly] [readonly]\<newline>}}}'')
     = Some (str ''{{{x  [readonly] [readonly]\<newline>}}}'')
   \<and> Option.bind (enhancedRawText (str ''{{{[readonly]x [readonly]\<newline>}}}'')) enhancedRawText
     \<noteq> enhancedRawText (str ''{{{[readonly]x [readonly]\<newline>}}}'')
   \<and> enhancedRawText (str ''{{{}}[readonly]}\<newline>}}}'')
     = Some (str ''{{{}}} [readonly]\<newline>}}}'')
   \<and> enhancedRawText (str ''{{{}}} [readonly]\<newline>}}}'')
     = Some (str ''{{{\<newline>}}} [readonly]\<newline>}}}'')
   \<and> Option.bind (enhancedRawText (str ''{{{}}[readonly]}\<newline>}}}'')) enhancedRawText
     \<noteq> enhancedRawText (str ''{{{}}[readonly]}\<newline>}}}'')"
  by code_simp

end
